theory Spec2Isabelle
  imports Main "HOL-Library.Word" "HOL-Library.Sublist"
begin

section \<open>Hints of pkg/proto/hint: data model\<close>

text \<open>
  Go strings are byte sequences, modelled as \<^typ>\<open>string\<close> (a list of 8-bit
  \<^typ>\<open>char\<close>). \<open>Type\<close> is \<open>uint8\<close>; the constants come from the \<open>iota\<close> block, whose
  first value (zero) is discarded with \<open>_\<close>.
\<close>

type_synonym Type = "8 word"

definition TypeMaster :: Type where "TypeMaster = 1"
definition TypeSlave :: Type where "TypeSlave = 2"
definition TypeRoute :: Type where "TypeRoute = 3"
definition TypeFullScan :: Type where "TypeFullScan = 4"
definition TypeDirect :: Type where "TypeDirect = 5"
definition TypeTrace :: Type where "TypeTrace = 6"

text \<open>
  The array \<open>_hintTypes\<close>: a keyed array literal whose largest index is \<open>TypeTrace\<close>, so it
  has seven slots, and slot 0, which the literal does not mention, is the empty string.
\<close>

definition hintTypes :: "string list" where
  "hintTypes = ['''', ''MASTER'', ''SLAVE'', ''ROUTE'', ''FULLSCAN'', ''DIRECT'', ''TRACE'']"

record KeyValue =
  K :: string
  V :: string

record Hint =
  Type :: Type
  Inputs :: "KeyValue list"

text \<open>
  What can go wrong: a run-time panic of Go (index out of range, slice bounds out of range,
  nil dereference) or an error value returned by \<open>Parse\<close>. \<open>Errorf s\<close> is
  \<open>errors.Errorf("hint: invalid input '%s'", s)\<close>; \<open>Wrapf e s\<close> is
  \<open>errors.Wrapf(e, "hint: invalid input '%s'", s)\<close>. The only error a
  \<open>bufio.Scanner\<close> over an in-memory reader can report is \<open>bufio.ErrTooLong\<close>.
\<close>

datatype scan_error = ErrTooLong

datatype fault =
    IndexOutOfRange
  | SliceOutOfRange
  | NilDereference
  | Errorf string
  | Wrapf scan_error string

fun isPanic :: "fault \<Rightarrow> bool" where
  "isPanic IndexOutOfRange = True"
| "isPanic SliceOutOfRange = True"
| "isPanic NilDereference = True"
| "isPanic (Errorf s) = False"
| "isPanic (Wrapf e s) = False"

text \<open>The message of an error value (\<open>err.Error()\<close>); a panic has none.\<close>

fun scanErrorText :: "scan_error \<Rightarrow> string" where
  "scanErrorText ErrTooLong = ''bufio.Scanner: token too long''"

fun errorText :: "fault \<Rightarrow> string option" where
  "errorText (Errorf s) = Some (''hint: invalid input '' @ [CHR 0x27] @ s @ [CHR 0x27])"
| "errorText (Wrapf e s) =
     Some (''hint: invalid input '' @ [CHR 0x27] @ s @ [CHR 0x27] @ '': '' @ scanErrorText e)"
| "errorText IndexOutOfRange = None"
| "errorText SliceOutOfRange = None"
| "errorText NilDereference = None"

section \<open>Library functions the package calls\<close>

subsection \<open>strings.Index and strings.LastIndex for a one-byte pattern\<close>

text \<open>\<open>None\<close> stands for the result \<open>-1\<close>.\<close>

fun indexByte :: "string \<Rightarrow> char \<Rightarrow> nat option" where
  "indexByte [] c = None"
| "indexByte (x # xs) c = (if x = c then Some 0 else map_option Suc (indexByte xs c))"

fun lastIndexByte :: "string \<Rightarrow> char \<Rightarrow> nat option" where
  "lastIndexByte [] c = None"
| "lastIndexByte (x # xs) c =
     (case lastIndexByte xs c of
        Some i \<Rightarrow> Some (Suc i)
      | None \<Rightarrow> if x = c then Some 0 else None)"

subsection \<open>strings.EqualFold against an ASCII string\<close>

text \<open>
  Two ASCII bytes are equal under folding when they are equal or when the smaller is an
  upper-case letter and the larger is the same letter in lower case.
\<close>

definition asciiFoldEq :: "char \<Rightarrow> char \<Rightarrow> bool" where
  "asciiFoldEq sr tr =
     (sr = tr \<or>
      (let lo = min (of_char sr) (of_char tr); hi = max (of_char sr) (of_char tr :: nat)
       in 65 \<le> lo \<and> lo \<le> 90 \<and> hi = lo + 32))"

text \<open>
  \<open>equalFold s t\<close> is \<open>strings.EqualFold(s, t)\<close> for a second argument made of ASCII bytes
  only, which is how \<open>Parse\<close> calls it (the entries of \<open>_hintTypes\<close>). The first argument is
  any byte string. A byte below 0x80 of \<open>s\<close> is compared as above. A rune of \<open>s\<close> beyond ASCII
  equals an ASCII rune under Unicode simple folding in two cases only: U+017F (long s, UTF-8
  \<open>C5 BF\<close>) folds to \<open>S\<close>/\<open>s\<close>, and U+212A (Kelvin sign, UTF-8 \<open>E2 84 AA\<close>) folds to
  \<open>K\<close>/\<open>k\<close>; every other rune, and every invalid byte (decoded as U+FFFD), differs.
\<close>

function equalFold :: "string \<Rightarrow> string \<Rightarrow> bool" where
  "equalFold [] t = (t = [])"
| "equalFold (c # s) [] = False"
| "equalFold (c # s) (d # t) =
     (if of_char c < (128::nat) then asciiFoldEq c d \<and> equalFold s t
      else if prefix [CHR 0xC5, CHR 0xBF] (c # s) \<and> (d = CHR ''S'' \<or> d = CHR ''s'')
        then equalFold (drop 1 s) t
      else if prefix [CHR 0xE2, CHR 0x84, CHR 0xAA] (c # s) \<and> (d = CHR ''K'' \<or> d = CHR ''k'')
        then equalFold (drop 2 s) t
      else False)"
  by pat_completeness auto
termination
  by (relation "measure (\<lambda>(s, t). length s)") auto

subsection \<open>Unicode white space: strings.TrimSpace and misc.IsBlank\<close>

text \<open>
  The UTF-8 encodings of the runes for which \<open>unicode.IsSpace\<close> holds: U+0009 to U+000D,
  U+0020, U+0085, U+00A0, U+1680, U+2000 to U+200A, U+2028, U+2029, U+202F, U+205F, U+3000.
  Go decodes only shortest-form encodings, so a string starts (ends) with a white-space rune
  exactly when one of these byte sequences is a prefix (suffix) of it.
\<close>

definition spaceRunes :: "string list" where
  "spaceRunes =
     [[CHR 0x09], [CHR 0x0A], [CHR 0x0B], [CHR 0x0C], [CHR 0x0D], [CHR 0x20],
      [CHR 0xC2, CHR 0x85], [CHR 0xC2, CHR 0xA0],
      [CHR 0xE1, CHR 0x9A, CHR 0x80],
      [CHR 0xE2, CHR 0x80, CHR 0x80], [CHR 0xE2, CHR 0x80, CHR 0x81],
      [CHR 0xE2, CHR 0x80, CHR 0x82], [CHR 0xE2, CHR 0x80, CHR 0x83],
      [CHR 0xE2, CHR 0x80, CHR 0x84], [CHR 0xE2, CHR 0x80, CHR 0x85],
      [CHR 0xE2, CHR 0x80, CHR 0x86], [CHR 0xE2, CHR 0x80, CHR 0x87],
      [CHR 0xE2, CHR 0x80, CHR 0x88], [CHR 0xE2, CHR 0x80, CHR 0x89],
      [CHR 0xE2, CHR 0x80, CHR 0x8A],
      [CHR 0xE2, CHR 0x80, CHR 0xA8], [CHR 0xE2, CHR 0x80, CHR 0xA9],
      [CHR 0xE2, CHR 0x80, CHR 0xAF],
      [CHR 0xE2, CHR 0x81, CHR 0x9F],
      [CHR 0xE3, CHR 0x80, CHR 0x80]]"

text \<open>The byte width of the white-space rune at the start (end) of a string; 0 if none.\<close>

definition leadingSpace :: "string \<Rightarrow> nat" where
  "leadingSpace s = (case find (\<lambda>e. prefix e s) spaceRunes of None \<Rightarrow> 0 | Some e \<Rightarrow> length e)"

definition trailingSpace :: "string \<Rightarrow> nat" where
  "trailingSpace s = (case find (\<lambda>e. suffix e s) spaceRunes of None \<Rightarrow> 0 | Some e \<Rightarrow> length e)"

text \<open>
  \<open>strings.TrimSpace\<close> removes the white-space runes at the start, then those at the end.
  (Its ASCII fast path, \<open>TrimLeftFunc\<close> and \<open>TrimRightFunc\<close> compute this.)
\<close>

function trimLeft :: "string \<Rightarrow> string" where
  "trimLeft s = (if leadingSpace s = 0 then s else trimLeft (drop (leadingSpace s) s))"
  by pat_completeness auto
termination
proof (relation "measure length")
  show "wf (measure length)" by simp
next
  fix s :: string
  assume a: "leadingSpace s \<noteq> 0"
  have "s \<noteq> []"
    using a by (auto simp: leadingSpace_def spaceRunes_def)
  then show "(drop (leadingSpace s) s, s) \<in> measure length"
    using a by simp
qed

function trimRight :: "string \<Rightarrow> string" where
  "trimRight s =
     (if trailingSpace s = 0 then s else trimRight (take (length s - trailingSpace s) s))"
  by pat_completeness auto
termination
proof (relation "measure length")
  show "wf (measure length)" by simp
next
  fix s :: string
  assume a: "trailingSpace s \<noteq> 0"
  have "s \<noteq> []"
    using a by (auto simp: trailingSpace_def spaceRunes_def)
  then show "(take (length s - trailingSpace s) s, s) \<in> measure length"
    using a by simp
qed

definition TrimSpace :: "string \<Rightarrow> string" where
  "TrimSpace s = trimRight (trimLeft s)"

text \<open>
  Modelled from the spec: \<open>misc.IsBlank\<close> of \<open>pkg/runtime/misc\<close>, which is not among the
  sources. The spec calls a string blank when it is "all-whitespace or empty": every rune of
  it, read from the left, is white space.
\<close>

function IsBlank :: "string \<Rightarrow> bool" where
  "IsBlank s =
     (if s = [] then True
      else if leadingSpace s = 0 then False
      else IsBlank (drop (leadingSpace s) s))"
  by pat_completeness auto
termination
  by (relation "measure length") auto

subsection \<open>bufio.Scanner with the split function scanComma\<close>

text \<open>
  \<open>scanComma\<close> as in the source; its third result, the error, is \<open>nil\<close> on every path and is
  left out. A \<open>nil\<close> token is \<open>None\<close>.
\<close>

definition scanComma :: "string \<Rightarrow> bool \<Rightarrow> nat \<times> string option" where
  "scanComma data atEOF =
     (if atEOF \<and> length data = 0 then (0, None)
      else case indexByte data (CHR '','') of
             Some i \<Rightarrow> (i + 1, Some (take i data))
           | None \<Rightarrow> if atEOF then (length data, Some data) else (0, None))"

definition maxScanTokenSize :: nat where
  "maxScanTokenSize = 64 * 1024"

text \<open>
  The scanner reads from a \<open>strings.Reader\<close>. Its buffer starts at 4096 bytes and doubles,
  up to \<open>bufio.MaxScanTokenSize\<close>; the data not yet consumed is moved to the front of the
  buffer before it grows. The split function is called on the buffered data, with \<open>atEOF\<close>
  only after a read has returned \<open>io.EOF\<close>, which needs room in the buffer. When the
  buffer is full at its largest size and the split function still asks for more data, the
  scanner stops with \<open>ErrTooLong\<close>. \<open>scanComma\<close> takes the text before the first comma, so
  calling it on the growing buffer gives what one call on the largest window gives:
  \<open>unread\<close> is the input not yet consumed, the window is its first \<open>maxScanTokenSize\<close>
  bytes, and \<open>atEOF\<close> holds when all of it fits into the buffer with room to spare.
  \<open>Scan\<close> models the calls up to the first one that returns false, which are the calls that
  \<open>Parse\<close> makes.
\<close>

record Scanner =
  unread :: string
  Text :: string
  Err :: "scan_error option"

definition NewScanner :: "string \<Rightarrow> Scanner" where
  "NewScanner s = \<lparr>unread = s, Text = [], Err = None\<rparr>"

definition Scan :: "Scanner \<Rightarrow> bool \<times> Scanner" where
  "Scan sc =
     (let atEOF = (length (unread sc) < maxScanTokenSize);
          data = take maxScanTokenSize (unread sc)
      in case scanComma data atEOF of
           (advance, Some token) \<Rightarrow> (True, sc\<lparr>unread := drop advance (unread sc), Text := token\<rparr>)
         | (advance, None) \<Rightarrow>
             if atEOF then (False, sc) else (False, sc\<lparr>Err := Some ErrTooLong\<rparr>))"

section \<open>The package's functions\<close>

subsection \<open>Type.String and Hint.String\<close>

definition Type_String :: "Type \<Rightarrow> fault + string" where
  "Type_String tp =
     (if unat tp < length hintTypes then Inr (hintTypes ! unat tp) else Inl IndexOutOfRange)"

text \<open>The closure \<open>writeKv\<close>, with the string builder passed in and returned.\<close>

definition writeKv :: "string \<Rightarrow> KeyValue \<Rightarrow> string" where
  "writeKv sb p = (if length (K p) > 0 then sb @ K p @ ''='' @ V p else sb @ V p)"

definition Hint_String :: "Hint \<Rightarrow> fault + string" where
  "Hint_String h =
     (case Type_String (Type h) of
        Inl e \<Rightarrow> Inl e
      | Inr name \<Rightarrow>
          (case Inputs h of
             [] \<Rightarrow> Inr (name @ ''()'')
           | p # ps \<Rightarrow>
               Inr (foldl (\<lambda>sb q. writeKv (sb @ '','') q) (writeKv (name @ ''('') p) ps @ '')'')))"

subsection \<open>Parse\<close>

text \<open>The loop over \<open>_hintTypes\<close>: the index of the first entry that matches, else 0.\<close>

fun lookupType :: "string \<Rightarrow> nat \<Rightarrow> string list \<Rightarrow> Type" where
  "lookupType tpStr i [] = 0"
| "lookupType tpStr i (v # vs) =
     (if equalFold tpStr v then of_nat i else lookupType tpStr (Suc i) vs)"

text \<open>The body of the scanning loop: one token, split at the first \<open>=\<close>.\<close>

definition appendInput :: "string \<Rightarrow> KeyValue list \<Rightarrow> KeyValue list" where
  "appendInput text kvs =
     (case indexByte text (CHR ''='') of
        None \<Rightarrow>
          if IsBlank text then kvs else kvs @ [\<lparr>K = [], V = TrimSpace text\<rparr>]
      | Some i \<Rightarrow>
          (let k = TrimSpace (take i text); v = TrimSpace (drop (i + 1) text)
           in if IsBlank k \<or> IsBlank v then kvs else kvs @ [\<lparr>K = k, V = v\<rparr>]))"

function scanLoop :: "Scanner \<Rightarrow> KeyValue list \<Rightarrow> Scanner \<times> KeyValue list" where
  "scanLoop sc kvs =
     (if fst (Scan sc) then scanLoop (snd (Scan sc)) (appendInput (Text (snd (Scan sc))) kvs)
      else (snd (Scan sc), kvs))"
  by pat_completeness auto
termination
proof (relation "measure (\<lambda>(sc, kvs). length (unread sc))")
  show "wf (measure (\<lambda>(sc, kvs). length (unread sc)))" by simp
next
  fix sc :: Scanner and kvs :: "KeyValue list"
  assume a: "fst (Scan sc)"
  have "length (unread (snd (Scan sc))) < length (unread sc)"
    using a
    by (cases "unread sc")
      (auto simp: Scan_def scanComma_def Let_def maxScanTokenSize_def
            split: if_splits option.splits)
  then show "((snd (Scan sc), appendInput (Text (snd (Scan sc))) kvs), sc, kvs)
      \<in> measure (\<lambda>(sc, kvs). length (unread sc))"
    by simp
qed

text \<open>
  The last part of \<open>Parse\<close>, from the creation of the scanner on: \<open>s'\<close> is the value of
  \<open>s\<close> after the assignment \<open>s = s[offset+1 : end]\<close>, and it is this value that the error of
  the last branch is built from.
\<close>

definition collectInputs :: "Type \<Rightarrow> string \<Rightarrow> fault + Hint" where
  "collectInputs tp s' =
     (let (scanner, kvs) = scanLoop (NewScanner s') []
      in case Err scanner of
           Some err \<Rightarrow> Inl (Wrapf err s')
         | None \<Rightarrow> Inr \<lparr>Type = tp, Inputs = kvs\<rparr>)"

text \<open>\<open>Parse\<close>. The slice expression \<open>s[offset+1 : end]\<close> panics when \<open>end < offset+1\<close>.\<close>

definition Parse :: "string \<Rightarrow> fault + Hint" where
  "Parse s =
     (let offset = indexByte s (CHR ''('');
          tpStr = (case offset of None \<Rightarrow> s | Some off \<Rightarrow> take off s);
          tp = lookupType tpStr 0 hintTypes
      in if tp = 0 then Inl (Errorf s)
         else case offset of
           None \<Rightarrow> Inr \<lparr>Type = tp, Inputs = []\<rparr>
         | Some off \<Rightarrow>
             (case lastIndexByte s (CHR '')'') of
                None \<Rightarrow> Inl (Errorf s)
              | Some end \<Rightarrow>
                  if end < off + 1 then Inl SliceOutOfRange
                  else collectInputs tp (take (end - (off + 1)) (drop (off + 1) s))))"

subsection \<open>Contains\<close>


section \<open>Notions of the specification\<close>

text \<open>
  The flat split of the argument-list text at its commas, as the specification describes it:
  each token is the text between successive commas, or between the last comma and the end of
  the text; the empty text has no token, and neither has the empty text after a last comma.
\<close>

function commaTokens :: "string \<Rightarrow> string list" where
  "commaTokens s =
     (if s = [] then []
      else takeWhile (\<lambda>c. c \<noteq> CHR '','') s
             # commaTokens (drop (Suc (length (takeWhile (\<lambda>c. c \<noteq> CHR '','') s))) s))"
  by pat_completeness auto
termination
  by (relation "measure length") auto

text \<open>Some token of the argument-list text does not fit into the scanner's buffer.\<close>

definition tokenTooLong :: "string \<Rightarrow> bool" where
  "tokenTooLong body = list_ex (\<lambda>t. maxScanTokenSize \<le> length t) (commaTokens body)"

text \<open>
  What one token contributes, in the words of the specification: the trimmed token with an
  empty key when there is no \<open>=\<close>, unless it is blank; else the trimmed sides of the first
  \<open>=\<close>, unless one of them is blank.
\<close>

definition tokenInput :: "string \<Rightarrow> KeyValue list" where
  "tokenInput token =
     (if CHR ''='' \<notin> set token then
        (let trimmed = TrimSpace token
         in if IsBlank trimmed then [] else [\<lparr>K = [], V = trimmed\<rparr>])
      else
        (let key = takeWhile (\<lambda>c. c \<noteq> CHR ''='') token;
             val = drop 1 (dropWhile (\<lambda>c. c \<noteq> CHR ''='') token);
             trimmedKey = TrimSpace key;
             trimmedValue = TrimSpace val
         in if IsBlank trimmedKey \<or> IsBlank trimmedValue then []
            else [\<lparr>K = trimmedKey, V = trimmedValue\<rparr>]))"

text \<open>The type-name token: the input up to its first opening parenthesis.\<close>

definition typeToken :: "string \<Rightarrow> string" where
  "typeToken s = takeWhile (\<lambda>c. c \<noteq> CHR ''('') s"

text \<open>The argument-list text: what stands between the first \<open>(\<close> and the last \<open>)\<close>.\<close>

definition argumentText :: "string \<Rightarrow> string" where
  "argumentText s =
     rev (drop 1 (dropWhile (\<lambda>c. c \<noteq> CHR '')'')
       (rev (drop 1 (dropWhile (\<lambda>c. c \<noteq> CHR ''('') s)))))"

definition canonicalNames :: "string list" where
  "canonicalNames = [''MASTER'', ''SLAVE'', ''ROUTE'', ''FULLSCAN'', ''DIRECT'', ''TRACE'']"

text \<open>The three conditions under which the specification lets \<open>Parse\<close> fail.\<close>

definition matchesNoName :: "string \<Rightarrow> bool" where
  "matchesNoName s = (\<not> list_ex (equalFold (typeToken s)) canonicalNames)"

definition resolvesToZero :: "string \<Rightarrow> bool" where
  "resolvesToZero s = equalFold (typeToken s) (hintTypes ! 0)"

definition missingClose :: "string \<Rightarrow> bool" where
  "missingClose s =
     (CHR ''('' \<in> set s \<and> CHR '')'' \<notin> set (dropWhile (\<lambda>c. c \<noteq> CHR ''('') s))"

text \<open>A spelling of a canonical name in upper and lower case letters.\<close>

definition asciiUpper :: "char \<Rightarrow> char" where
  "asciiUpper c =
     (if 97 \<le> (of_char c :: nat) \<and> (of_char c :: nat) \<le> 122
      then char_of (of_char c - (32::nat)) else c)"

text \<open>\<open>Parse(Render(h))\<close>.\<close>

definition roundTrip :: "Hint \<Rightarrow> fault + Hint" where
  "roundTrip h = (case Hint_String h of Inl e \<Rightarrow> Inl e | Inr s \<Rightarrow> Parse s)"

text \<open>
  An input that survives rendering and parsing: its value is trimmed, not empty and free of
  commas; without a key the value has no \<open>=\<close>; a key is trimmed and free of commas and of
  \<open>=\<close>; and the rendered pair fits into the scanner's buffer.
\<close>

definition stableInput :: "KeyValue \<Rightarrow> bool" where
  "stableInput p =
     (TrimSpace (V p) = V p \<and> V p \<noteq> [] \<and> CHR '','' \<notin> set (V p) \<and>
      (if K p = [] then CHR ''='' \<notin> set (V p)
       else TrimSpace (K p) = K p \<and> CHR '','' \<notin> set (K p) \<and> CHR ''='' \<notin> set (K p)) \<and>
      length (writeKv [] p) < maxScanTokenSize)"

text \<open>The invariant of a parsed input.\<close>

definition parsedInput :: "KeyValue \<Rightarrow> bool" where
  "parsedInput p =
     (\<not> IsBlank (V p) \<and> TrimSpace (V p) = V p \<and>
      (K p \<noteq> [] \<longrightarrow> \<not> IsBlank (K p) \<and> TrimSpace (K p) = K p))"

text \<open>A string of upper-case ASCII letters.\<close>

definition upperLetters :: "string \<Rightarrow> bool" where
  "upperLetters v = (\<forall>c\<in>set v. 65 \<le> (of_char c :: nat) \<and> (of_char c :: nat) \<le> 90)"

section \<open>White space\<close>

lemma spaceRunes_nonempty: "e \<in> set spaceRunes \<Longrightarrow> e \<noteq> []"
  by (auto simp: spaceRunes_def)

lemma find_width_zero:
  "\<forall>e\<in>set xs. e \<noteq> [] \<Longrightarrow>
   (case find P xs of None \<Rightarrow> 0 | Some e \<Rightarrow> length e) = 0 \<longleftrightarrow> (\<forall>e\<in>set xs. \<not> P e)"
  by (induction xs) auto

lemma find_width_pos:
  "(case find P xs of None \<Rightarrow> 0 | Some e \<Rightarrow> length e) \<noteq> 0 \<Longrightarrow>
   \<exists>e\<in>set xs. P e \<and> (case find P xs of None \<Rightarrow> 0 | Some e \<Rightarrow> length e) = length e"
  by (induction xs) (auto split: if_splits)

lemma leadingSpace_zero_iff: "leadingSpace s = 0 \<longleftrightarrow> (\<forall>e\<in>set spaceRunes. \<not> prefix e s)"
  unfolding leadingSpace_def
  by (rule find_width_zero) (simp add: spaceRunes_nonempty)

lemma leadingSpace_prefix:
  "leadingSpace s \<noteq> 0 \<Longrightarrow> \<exists>e\<in>set spaceRunes. prefix e s \<and> leadingSpace s = length e"
  unfolding leadingSpace_def by (rule find_width_pos)

lemma trailingSpace_zero_iff: "trailingSpace s = 0 \<longleftrightarrow> (\<forall>e\<in>set spaceRunes. \<not> suffix e s)"
  unfolding trailingSpace_def
  by (rule find_width_zero) (simp add: spaceRunes_nonempty)

lemma trailingSpace_suffix:
  "trailingSpace s \<noteq> 0 \<Longrightarrow> \<exists>e\<in>set spaceRunes. suffix e s \<and> trailingSpace s = length e"
  unfolding trailingSpace_def by (rule find_width_pos)

lemma leadingSpace_Nil [simp]: "leadingSpace [] = 0"
  by (simp add: leadingSpace_zero_iff spaceRunes_nonempty)

lemma trailingSpace_Nil [simp]: "trailingSpace [] = 0"
  by (simp add: trailingSpace_zero_iff spaceRunes_nonempty)

declare trimLeft.simps [simp del] trimRight.simps [simp del] IsBlank.simps [simp del]

lemma leadingSpace_trimLeft [simp]: "leadingSpace (trimLeft s) = 0"
  by (induction s rule: trimLeft.induct) (subst trimLeft.simps, simp)

lemma trailingSpace_trimRight [simp]: "trailingSpace (trimRight s) = 0"
  by (induction s rule: trimRight.induct) (subst trimRight.simps, simp)

lemma trimLeft_id: "leadingSpace s = 0 \<Longrightarrow> trimLeft s = s"
  by (subst trimLeft.simps) simp

lemma trimRight_id: "trailingSpace s = 0 \<Longrightarrow> trimRight s = s"
  by (subst trimRight.simps) simp

lemma trimLeft_Nil [simp]: "trimLeft [] = []"
  by (simp add: trimLeft_id)

lemma trimRight_Nil [simp]: "trimRight [] = []"
  by (simp add: trimRight_id)

lemma prefix_trimRight: "prefix (trimRight s) s"
proof (induction s rule: trimRight.induct)
  case (1 s)
  show ?case
  proof (cases "trailingSpace s = 0")
    case True
    then show ?thesis by (simp add: trimRight_id)
  next
    case False
    have "prefix (trimRight (take (length s - trailingSpace s) s)) (take (length s - trailingSpace s) s)"
      using "1" False by simp
    moreover have "prefix (take (length s - trailingSpace s) s) s"
      by (rule take_is_prefix)
    ultimately have "prefix (trimRight (take (length s - trailingSpace s) s)) s"
      by (rule prefix_order.trans)
    then show ?thesis
      using False by (subst trimRight.simps) simp
  qed
qed

lemma leadingSpace_prefix_mono:
  "prefix u t \<Longrightarrow> leadingSpace t = 0 \<Longrightarrow> leadingSpace u = 0"
  unfolding leadingSpace_zero_iff
  by (meson prefix_order.trans)

lemma leadingSpace_trimRight: "leadingSpace t = 0 \<Longrightarrow> leadingSpace (trimRight t) = 0"
  using leadingSpace_prefix_mono [OF prefix_trimRight] .

lemma leadingSpace_TrimSpace [simp]: "leadingSpace (TrimSpace s) = 0"
  by (simp add: TrimSpace_def leadingSpace_trimRight)

lemma trailingSpace_TrimSpace [simp]: "trailingSpace (TrimSpace s) = 0"
  by (simp add: TrimSpace_def)

lemma TrimSpace_id: "leadingSpace s = 0 \<Longrightarrow> trailingSpace s = 0 \<Longrightarrow> TrimSpace s = s"
  by (simp add: TrimSpace_def trimLeft_id trimRight_id)

lemma TrimSpace_idem: "TrimSpace (TrimSpace s) = TrimSpace s"
  by (simp add: TrimSpace_id)

lemma TrimSpace_fixed_iff: "TrimSpace s = s \<longleftrightarrow> leadingSpace s = 0 \<and> trailingSpace s = 0"
  by (metis TrimSpace_id leadingSpace_TrimSpace trailingSpace_TrimSpace)

lemma IsBlank_trimLeft: "IsBlank s \<longleftrightarrow> trimLeft s = []"
proof (induction s rule: IsBlank.induct)
  case (1 s)
  show ?case
  proof (cases "s = []")
    case True
    then show ?thesis by (subst IsBlank.simps) simp
  next
    case ne: False
    show ?thesis
    proof (cases "leadingSpace s = 0")
      case True
      then show ?thesis using ne by (subst IsBlank.simps) (simp add: trimLeft_id)
    next
      case False
      then have "IsBlank s = IsBlank (drop (leadingSpace s) s)"
        using ne by (subst IsBlank.simps) simp
      also have "\<dots> \<longleftrightarrow> trimLeft (drop (leadingSpace s) s) = []"
        using "1" ne False by simp
      also have "trimLeft (drop (leadingSpace s) s) = trimLeft s"
        using False by (subst (2) trimLeft.simps) simp
      finally show ?thesis .
    qed
  qed
qed

lemma trimRight_Nil_leading: "trimRight t = [] \<Longrightarrow> t \<noteq> [] \<Longrightarrow> leadingSpace t \<noteq> 0"
proof (induction t rule: trimRight.induct)
  case (1 s)
  have ts: "trailingSpace s \<noteq> 0"
  proof
    assume "trailingSpace s = 0"
    then have "trimRight s = s" by (rule trimRight_id)
    then show False using "1.prems" by simp
  qed
  then obtain e where e: "e \<in> set spaceRunes" "suffix e s" "trailingSpace s = length e"
    using trailingSpace_suffix by blast
  obtain p where p: "s = p @ e"
    using e(2) by (auto simp: suffix_def)
  have s': "take (length s - trailingSpace s) s = p"
    unfolding e(3) by (simp add: p)
  have tr: "trimRight p = []"
  proof -
    have "trimRight s = trimRight (take (length s - trailingSpace s) s)"
      using ts by (subst trimRight.simps) simp
    then show ?thesis using "1.prems"(1) s' by simp
  qed
  show ?case
  proof (cases "p = []")
    case True
    then have "prefix e s" by (simp add: p)
    then show ?thesis using e(1) leadingSpace_zero_iff by blast
  next
    case False
    have lp: "leadingSpace p \<noteq> 0"
      using "1.IH" [OF ts] tr False unfolding s' by blast
    have pp: "prefix p s" by (simp add: p)
    show ?thesis
    proof
      assume "leadingSpace s = 0"
      with pp have "leadingSpace p = 0" by (rule leadingSpace_prefix_mono)
      with lp show False by simp
    qed
  qed
qed

lemma IsBlank_TrimSpace_Nil: "IsBlank s \<longleftrightarrow> TrimSpace s = []"
proof
  assume "IsBlank s"
  then show "TrimSpace s = []" by (simp add: IsBlank_trimLeft TrimSpace_def)
next
  assume a: "TrimSpace s = []"
  have "trimLeft s = []"
  proof (rule ccontr)
    assume "trimLeft s \<noteq> []"
    moreover have "trimRight (trimLeft s) = []"
      using a by (simp add: TrimSpace_def)
    ultimately have "leadingSpace (trimLeft s) \<noteq> 0"
      by (rule trimRight_Nil_leading [rotated])
    then show False by simp
  qed
  then show "IsBlank s" by (simp add: IsBlank_trimLeft)
qed

lemma IsBlank_TrimSpace [simp]: "IsBlank (TrimSpace s) = IsBlank s"
  by (simp add: IsBlank_TrimSpace_Nil TrimSpace_idem)

lemma IsBlank_Nil [simp]: "IsBlank []"
  by (simp add: IsBlank_trimLeft)

section \<open>Searching for a byte\<close>

lemma indexByte_None_iff: "indexByte s c = None \<longleftrightarrow> c \<notin> set s"
  by (induction s) auto

lemma indexByte_append: "c \<notin> set pre \<Longrightarrow> indexByte (pre @ c # rest) c = Some (length pre)"
  by (induction pre) auto

lemma indexByte_takeWhile:
  "indexByte s c = Some i \<Longrightarrow> i = length (takeWhile (\<lambda>x. x \<noteq> c) s)"
  by (induction s arbitrary: i) (auto split: if_splits)

lemma indexByte_Some_iff:
  "indexByte s c = Some i \<longleftrightarrow> c \<in> set s \<and> i = length (takeWhile (\<lambda>x. x \<noteq> c) s)"
  by (induction s arbitrary: i) auto

lemma lastIndexByte_None_iff: "lastIndexByte s c = None \<longleftrightarrow> c \<notin> set s"
  by (induction s) (auto split: option.splits)

lemma lastIndexByte_append:
  "c \<notin> set post \<Longrightarrow> lastIndexByte (pre @ c # post) c = Some (length pre)"
proof (induction pre)
  case Nil
  then show ?case by (simp add: lastIndexByte_None_iff [THEN iffD2])
next
  case (Cons x pre)
  then show ?case by simp
qed

lemma split_first:
  "c \<in> set s \<Longrightarrow>
   s = takeWhile (\<lambda>x. x \<noteq> c) s @ c # drop 1 (dropWhile (\<lambda>x. x \<noteq> c) s)"
  by (induction s) auto

lemma split_last:
  "c \<in> set s \<Longrightarrow>
   s = rev (drop 1 (dropWhile (\<lambda>x. x \<noteq> c) (rev s))) @ c # rev (takeWhile (\<lambda>x. x \<noteq> c) (rev s))"
proof -
  assume "c \<in> set s"
  then have "c \<in> set (rev s)" by simp
  then have "rev s = takeWhile (\<lambda>x. x \<noteq> c) (rev s) @ c # drop 1 (dropWhile (\<lambda>x. x \<noteq> c) (rev s))"
    by (rule split_first)
  then have "rev (rev s) = rev (takeWhile (\<lambda>x. x \<noteq> c) (rev s) @ c # drop 1 (dropWhile (\<lambda>x. x \<noteq> c) (rev s)))"
    by simp
  then show ?thesis by simp
qed

lemma notin_takeWhile: "c \<notin> set (takeWhile (\<lambda>x. x \<noteq> c) s)"
  by (induction s) auto

section \<open>The scanner yields the comma-delimited tokens\<close>

lemma Scan_empty: "unread sc = [] \<Longrightarrow> Scan sc = (False, sc)"
  by (simp add: Scan_def scanComma_def maxScanTokenSize_def)

lemma Scan_token:
  assumes ne: "unread sc \<noteq> []"
    and short: "length (takeWhile (\<lambda>c. c \<noteq> CHR '','') (unread sc)) < maxScanTokenSize"
  shows "Scan sc =
    (True, sc\<lparr>unread := drop (Suc (length (takeWhile (\<lambda>c. c \<noteq> CHR '','') (unread sc)))) (unread sc),
              Text := takeWhile (\<lambda>c. c \<noteq> CHR '','') (unread sc)\<rparr>)"
proof -
  define u where "u = unread sc"
  define tok where "tok = takeWhile (\<lambda>c. c \<noteq> CHR '','') u"
  have short': "length tok < maxScanTokenSize"
    using short by (simp add: tok_def u_def)
  show ?thesis
  proof (cases "CHR '','' \<in> set u")
    case True
    define rest where "rest = drop 1 (dropWhile (\<lambda>c. c \<noteq> CHR '','') u)"
    have u: "u = tok @ CHR '','' # rest"
      unfolding tok_def rest_def using True by (rule split_first)
    have nin: "CHR '','' \<notin> set tok"
      unfolding tok_def by (rule notin_takeWhile)
    obtain k where k: "maxScanTokenSize = length tok + Suc k"
      using short' by (metis less_iff_Suc_add add_Suc_right)
    have data: "take maxScanTokenSize u = tok @ CHR '','' # take k rest"
      by (subst u) (simp add: k)
    have idx: "indexByte (take maxScanTokenSize u) (CHR '','') = Some (length tok)"
      unfolding data using nin by (rule indexByte_append)
    have "scanComma (take maxScanTokenSize u) (length u < maxScanTokenSize)
        = (length tok + 1, Some tok)"
      unfolding scanComma_def idx by (simp add: data)
    then show ?thesis
      unfolding Scan_def Let_def u_def [symmetric] tok_def [symmetric] by simp
  next
    case False
    then have tok: "tok = u"
      unfolding tok_def by (auto simp: takeWhile_eq_all_conv)
    have lt: "length u < maxScanTokenSize"
      using short' tok by simp
    have idx: "indexByte u (CHR '','') = None"
      using False by (simp add: indexByte_None_iff)
    have "scanComma (take maxScanTokenSize u) (length u < maxScanTokenSize) = (length u, Some u)"
      unfolding scanComma_def using lt ne idx by (simp add: u_def)
    then show ?thesis
      unfolding Scan_def Let_def u_def [symmetric] tok_def [symmetric] by (simp add: tok)
  qed
qed

lemma Scan_too_long:
  assumes long: "maxScanTokenSize \<le> length (takeWhile (\<lambda>c. c \<noteq> CHR '','') (unread sc))"
  shows "Scan sc = (False, sc\<lparr>Err := Some ErrTooLong\<rparr>)"
proof -
  define u where "u = unread sc"
  define tok where "tok = takeWhile (\<lambda>c. c \<noteq> CHR '','') u"
  have long': "maxScanTokenSize \<le> length tok"
    using long by (simp add: tok_def u_def)
  have "length tok \<le> length u"
    unfolding tok_def by (rule length_takeWhile_le)
  then have ge: "\<not> length u < maxScanTokenSize"
    using long' by simp
  have u: "u = tok @ dropWhile (\<lambda>c. c \<noteq> CHR '','') u"
    unfolding tok_def by simp
  have "take maxScanTokenSize u = take maxScanTokenSize tok"
    by (subst u) (simp add: long')
  moreover have "CHR '','' \<notin> set (take maxScanTokenSize tok)"
    using notin_takeWhile [of "CHR '',''" u] in_set_takeD unfolding tok_def by fastforce
  ultimately have idx: "indexByte (take maxScanTokenSize u) (CHR '','') = None"
    by (simp add: indexByte_None_iff)
  have "scanComma (take maxScanTokenSize u) (length u < maxScanTokenSize) = (0, None)"
    unfolding scanComma_def idx using ge by simp
  then show ?thesis
    unfolding Scan_def Let_def u_def [symmetric] using ge by simp
qed

declare scanLoop.simps [simp del] commaTokens.simps [simp del]

lemma commaTokens_Nil [simp]: "commaTokens [] = []"
  by (subst commaTokens.simps) simp

lemma commaTokens_step:
  "s \<noteq> [] \<Longrightarrow> commaTokens s =
     takeWhile (\<lambda>c. c \<noteq> CHR '','') s
       # commaTokens (drop (Suc (length (takeWhile (\<lambda>c. c \<noteq> CHR '','') s))) s)"
  by (subst commaTokens.simps) simp

lemma scanLoop_short:
  "\<not> tokenTooLong (unread sc) \<Longrightarrow>
   Err (fst (scanLoop sc kvs)) = Err sc \<and>
   snd (scanLoop sc kvs) = foldl (\<lambda>k t. appendInput t k) kvs (commaTokens (unread sc))"
proof (induction sc kvs rule: scanLoop.induct)
  case (1 sc kvs)
  show ?case
  proof (cases "unread sc = []")
    case True
    then show ?thesis
      by (subst (1 2) scanLoop.simps) (simp add: Scan_empty)
  next
    case False
    let ?tok = "takeWhile (\<lambda>c. c \<noteq> CHR '','') (unread sc)"
    let ?rest = "drop (Suc (length ?tok)) (unread sc)"
    have ct: "commaTokens (unread sc) = ?tok # commaTokens ?rest"
      using False by (rule commaTokens_step)
    have short: "length ?tok < maxScanTokenSize" and rest: "\<not> tokenTooLong ?rest"
      using "1.prems" unfolding tokenTooLong_def ct by (simp_all add: not_le)
    have sc: "Scan sc = (True, sc\<lparr>unread := ?rest, Text := ?tok\<rparr>)"
      using False short by (rule Scan_token)
    have ih: "Err (fst (scanLoop (sc\<lparr>unread := ?rest, Text := ?tok\<rparr>) (appendInput ?tok kvs))) = Err sc \<and>
        snd (scanLoop (sc\<lparr>unread := ?rest, Text := ?tok\<rparr>) (appendInput ?tok kvs)) =
        foldl (\<lambda>k t. appendInput t k) (appendInput ?tok kvs) (commaTokens ?rest)"
      using "1.IH" rest unfolding sc by simp
    have "scanLoop sc kvs = scanLoop (sc\<lparr>unread := ?rest, Text := ?tok\<rparr>) (appendInput ?tok kvs)"
      by (subst scanLoop.simps) (simp add: sc)
    then show ?thesis
      using ih by (simp add: ct)
  qed
qed

lemma scanLoop_long:
  "tokenTooLong (unread sc) \<Longrightarrow> Err (fst (scanLoop sc kvs)) = Some ErrTooLong"
proof (induction sc kvs rule: scanLoop.induct)
  case (1 sc kvs)
  have ne: "unread sc \<noteq> []"
    using "1.prems" by (auto simp: tokenTooLong_def)
  let ?tok = "takeWhile (\<lambda>c. c \<noteq> CHR '','') (unread sc)"
  let ?rest = "drop (Suc (length ?tok)) (unread sc)"
  have ct: "commaTokens (unread sc) = ?tok # commaTokens ?rest"
    using ne by (rule commaTokens_step)
  show ?case
  proof (cases "length ?tok < maxScanTokenSize")
    case True
    have rest: "tokenTooLong ?rest"
      using "1.prems" True unfolding tokenTooLong_def ct by simp
    have sc: "Scan sc = (True, sc\<lparr>unread := ?rest, Text := ?tok\<rparr>)"
      using ne True by (rule Scan_token)
    have ih: "Err (fst (scanLoop (sc\<lparr>unread := ?rest, Text := ?tok\<rparr>) (appendInput ?tok kvs)))
        = Some ErrTooLong"
      using "1.IH" rest unfolding sc by simp
    have "scanLoop sc kvs = scanLoop (sc\<lparr>unread := ?rest, Text := ?tok\<rparr>) (appendInput ?tok kvs)"
      by (subst scanLoop.simps) (simp add: sc)
    then show ?thesis using ih by simp
  next
    case False
    then have "Scan sc = (False, sc\<lparr>Err := Some ErrTooLong\<rparr>)"
      by (intro Scan_too_long) simp
    then show ?thesis
      by (subst scanLoop.simps) simp
  qed
qed

lemma appendInput_eq: "appendInput text kvs = kvs @ tokenInput text"
proof (cases "CHR ''='' \<in> set text")
  case False
  then have "indexByte text (CHR ''='') = None"
    by (simp add: indexByte_None_iff)
  then show ?thesis
    using False by (simp add: appendInput_def tokenInput_def)
next
  case True
  let ?P = "\<lambda>c. c \<noteq> CHR ''=''"
  have idx: "indexByte text (CHR ''='') = Some (length (takeWhile ?P text))"
    using True by (simp add: indexByte_Some_iff)
  have k: "take (length (takeWhile ?P text)) text = takeWhile ?P text"
    by (simp add: takeWhile_eq_take [symmetric])
  have v: "drop (length (takeWhile ?P text) + 1) text = drop 1 (dropWhile ?P text)"
    by (simp add: dropWhile_eq_drop)
  show ?thesis
    using True unfolding appendInput_def tokenInput_def idx
    by (simp add: k v Let_def del: One_nat_def)
qed

lemma foldl_appendInput:
  "foldl (\<lambda>k t. appendInput t k) kvs ts = kvs @ concat (map tokenInput ts)"
  by (induction ts arbitrary: kvs) (simp_all add: appendInput_eq)

lemma collectInputs_eq:
  "collectInputs tp body =
     (if tokenTooLong body then Inl (Wrapf ErrTooLong body)
      else Inr \<lparr>Type = tp, Inputs = concat (map tokenInput (commaTokens body))\<rparr>)"
proof (cases "tokenTooLong body")
  case True
  then have "Err (fst (scanLoop (NewScanner body) [])) = Some ErrTooLong"
    by (intro scanLoop_long) (simp add: NewScanner_def)
  then show ?thesis
    using True by (simp add: collectInputs_def split_beta)
next
  case False
  then have "\<not> tokenTooLong (unread (NewScanner body))"
    by (simp add: NewScanner_def)
  from scanLoop_short [OF this, of "[]"]
  show ?thesis
    using False by (simp add: collectInputs_def split_beta NewScanner_def foldl_appendInput)
qed

section \<open>Resolving the type name\<close>

lemma asciiFoldEq_low:
  "asciiFoldEq c d \<Longrightarrow> (of_char p :: nat) < 65 \<Longrightarrow> d \<noteq> p \<Longrightarrow> c \<noteq> p"
  by (auto simp: asciiFoldEq_def Let_def min_def max_def split: if_splits)

lemma equalFold_notin:
  "equalFold s t \<Longrightarrow> (of_char p :: nat) < 65 \<Longrightarrow> p \<notin> set t \<Longrightarrow> p \<notin> set s"
proof (induction s t rule: equalFold.induct)
  case (1 t)
  then show ?case by simp
next
  case (2 c s)
  then show ?case by simp
next
  case (3 c s d t)
  have dp: "d \<noteq> p" and pt: "p \<notin> set t"
    using "3.prems"(3) by auto
  show ?case
  proof (cases "of_char c < (128::nat)")
    case True
    then have "asciiFoldEq c d" and "equalFold s t"
      using "3.prems"(1) by simp_all
    then show ?thesis
      using "3.IH"(1) [OF True] "3.prems"(2) pt dp asciiFoldEq_low [of c d p] by auto
  next
    case False
    then have cp: "c \<noteq> p"
      using "3.prems"(2) by auto
    show ?thesis
    proof (cases "prefix [CHR 0xC5, CHR 0xBF] (c # s) \<and> (d = CHR ''S'' \<or> d = CHR ''s'')")
      case True
      then obtain s' where s': "s = CHR 0xBF # s'"
        by (cases s) auto
      have "equalFold (drop 1 s) t"
        using "3.prems"(1) False True by simp
      then have "p \<notin> set (drop 1 s)"
        using "3.IH"(2) [OF False True] "3.prems"(2) pt by simp
      moreover have "p \<noteq> CHR 0xBF"
        using "3.prems"(2) by auto
      ultimately show ?thesis
        using cp by (simp add: s')
    next
      case nS: False
      show ?thesis
      proof (cases "prefix [CHR 0xE2, CHR 0x84, CHR 0xAA] (c # s) \<and> (d = CHR ''K'' \<or> d = CHR ''k'')")
        case True
        then obtain s' where s': "s = CHR 0x84 # CHR 0xAA # s'"
          by (cases s; cases "tl s") auto
        have "equalFold (drop 2 s) t"
          using "3.prems"(1) False nS True by simp
        then have "p \<notin> set (drop 2 s)"
          using "3.IH"(3) [OF False nS True] "3.prems"(2) pt by simp
        moreover have "p \<noteq> CHR 0x84" "p \<noteq> CHR 0xAA"
          using "3.prems"(2) by auto
        ultimately show ?thesis
          using cp by (simp add: s')
      next
        case nK: False
        have "equalFold (c # s) (d # t) = False"
          by (simp only: equalFold.simps False nS nK if_False)
        then show ?thesis
          using "3.prems"(1) by simp
      qed
    qed
  qed
qed

lemma equalFold_Nil_right [simp]: "equalFold s [] \<longleftrightarrow> s = []"
  by (cases s) simp_all

lemma lookupType_zero_iff:
  "lookupType tpStr 0 hintTypes = 0 \<longleftrightarrow> \<not> list_ex (equalFold tpStr) canonicalNames"
  by (simp add: hintTypes_def canonicalNames_def)

lemma lookupType_match:
  "lookupType tpStr 0 hintTypes \<noteq> 0 \<Longrightarrow> \<exists>v\<in>set canonicalNames. equalFold tpStr v"
  by (simp add: lookupType_zero_iff list_ex_iff)

lemma lookupType_bound: "unat (lookupType tpStr 0 hintTypes) < 7"
  by (simp add: hintTypes_def)

lemma lookupType_no_paren:
  assumes "lookupType tpStr 0 hintTypes \<noteq> 0"
  shows "CHR ''('' \<notin> set tpStr" and "CHR '')'' \<notin> set tpStr"
proof -
  obtain v where v: "v \<in> set canonicalNames" "equalFold tpStr v"
    using lookupType_match [OF assms] by blast
  have "CHR ''('' \<notin> set v" "CHR '')'' \<notin> set v"
    using v(1) by (auto simp: canonicalNames_def)
  then show "CHR ''('' \<notin> set tpStr" and "CHR '')'' \<notin> set tpStr"
    using equalFold_notin [OF v(2)] by simp_all
qed

section \<open>The branches of Parse\<close>

lemma Parse_bare:
  "CHR ''('' \<notin> set s \<Longrightarrow>
   Parse s = (if lookupType s 0 hintTypes = 0 then Inl (Errorf s)
              else Inr \<lparr>Type = lookupType s 0 hintTypes, Inputs = []\<rparr>)"
  by (simp add: Parse_def indexByte_None_iff [THEN iffD2])

lemma Parse_parens:
  assumes tp: "lookupType pre 0 hintTypes \<noteq> 0" and post: "CHR '')'' \<notin> set post"
  shows "Parse (pre @ ''('' @ body @ '')'' @ post) = collectInputs (lookupType pre 0 hintTypes) body"
proof -
  have pre: "CHR ''('' \<notin> set pre"
    using tp by (rule lookupType_no_paren)
  let ?s = "pre @ ''('' @ body @ '')'' @ post"
  have idx: "indexByte ?s (CHR ''('') = Some (length pre)"
    using indexByte_append [OF pre] by simp
  have "lastIndexByte ((pre @ CHR ''('' # body) @ CHR '')'' # post) (CHR '')'')
      = Some (length (pre @ CHR ''('' # body))"
    using post by (rule lastIndexByte_append)
  then have last: "lastIndexByte ?s (CHR '')'') = Some (length pre + 1 + length body)"
    by simp
  show ?thesis
    unfolding Parse_def idx last using tp by (simp add: Let_def)
qed

lemma Parse_unclosed:
  "CHR ''('' \<in> set s \<Longrightarrow> CHR '')'' \<notin> set s \<Longrightarrow> Parse s = Inl (Errorf s)"
  by (cases "indexByte s (CHR ''('')")
    (simp_all add: Parse_def Let_def lastIndexByte_None_iff [THEN iffD2] indexByte_None_iff)

lemma Parse_unresolved:
  "lookupType (typeToken s) 0 hintTypes = 0 \<Longrightarrow> Parse s = Inl (Errorf s)"
proof (cases "CHR ''('' \<in> set s")
  case True
  assume z: "lookupType (typeToken s) 0 hintTypes = 0"
  have idx: "indexByte s (CHR ''('') = Some (length (takeWhile (\<lambda>c. c \<noteq> CHR ''('') s))"
    using True by (simp add: indexByte_Some_iff)
  have "take (length (takeWhile (\<lambda>c. c \<noteq> CHR ''('') s)) s = typeToken s"
    by (simp add: typeToken_def takeWhile_eq_take [symmetric])
  then show ?thesis
    unfolding Parse_def idx using z by (simp add: Let_def)
next
  case False
  assume z: "lookupType (typeToken s) 0 hintTypes = 0"
  have "typeToken s = s"
    using False by (auto simp: typeToken_def takeWhile_eq_all_conv)
  then show ?thesis
    using z False by (simp add: Parse_bare)
qed

lemma Parse_shape:
  assumes tp: "lookupType (typeToken s) 0 hintTypes \<noteq> 0"
    and op: "CHR ''('' \<in> set s" and cl: "CHR '')'' \<in> set s"
  shows "\<exists>post. CHR '')'' \<notin> set post \<and>
           s = typeToken s @ ''('' @ argumentText s @ '')'' @ post"
proof -
  define rest where "rest = drop 1 (dropWhile (\<lambda>c. c \<noteq> CHR ''('') s)"
  have s: "s = typeToken s @ CHR ''('' # rest"
    unfolding typeToken_def rest_def using op by (rule split_first)
  have "CHR '')'' \<notin> set (typeToken s)"
    using tp by (rule lookupType_no_paren)
  then have "CHR '')'' \<in> set rest"
    using cl by (subst (asm) s) auto
  then have "rest = rev (drop 1 (dropWhile (\<lambda>c. c \<noteq> CHR '')'') (rev rest)))
      @ CHR '')'' # rev (takeWhile (\<lambda>c. c \<noteq> CHR '')'') (rev rest))"
    by (rule split_last)
  then have rest: "rest = argumentText s @ CHR '')'' # rev (takeWhile (\<lambda>c. c \<noteq> CHR '')'') (rev rest))"
    by (simp add: argumentText_def rest_def)
  have "CHR '')'' \<notin> set (rev (takeWhile (\<lambda>c. c \<noteq> CHR '')'') (rev rest)))"
    using notin_takeWhile [of "CHR '')''" "rev rest"] by simp
  moreover have "s = typeToken s @ ''('' @ argumentText s @ '')''
      @ rev (takeWhile (\<lambda>c. c \<noteq> CHR '')'') (rev rest))"
    using s rest by simp
  ultimately show ?thesis by blast
qed

lemma Parse_cases:
  "Parse s =
     (if lookupType (typeToken s) 0 hintTypes = 0 then Inl (Errorf s)
      else if CHR ''('' \<notin> set s then Inr \<lparr>Type = lookupType (typeToken s) 0 hintTypes, Inputs = []\<rparr>
      else if CHR '')'' \<notin> set s then Inl (Errorf s)
      else collectInputs (lookupType (typeToken s) 0 hintTypes) (argumentText s))"
proof (cases "lookupType (typeToken s) 0 hintTypes = 0")
  case True
  then show ?thesis by (simp add: Parse_unresolved)
next
  case tp: False
  show ?thesis
  proof (cases "CHR ''('' \<in> set s")
    case False
    then have "typeToken s = s"
      by (auto simp: typeToken_def takeWhile_eq_all_conv)
    then show ?thesis
      using tp False by (simp add: Parse_bare)
  next
    case op: True
    show ?thesis
    proof (cases "CHR '')'' \<in> set s")
      case False
      then show ?thesis using tp op by (simp add: Parse_unclosed)
    next
      case True
      obtain post where post: "CHR '')'' \<notin> set post"
        and s: "s = typeToken s @ ''('' @ argumentText s @ '')'' @ post"
        using Parse_shape [OF tp op True] by blast
      have "Parse (typeToken s @ ''('' @ argumentText s @ '')'' @ post)
          = collectInputs (lookupType (typeToken s) 0 hintTypes) (argumentText s)"
        using tp post by (rule Parse_parens)
      then have "Parse s = collectInputs (lookupType (typeToken s) 0 hintTypes) (argumentText s)"
        using s by simp
      then show ?thesis using tp op True by simp
    qed
  qed
qed

section \<open>Tokens that do not fit into the scanner's buffer\<close>

lemma commaTokens_single:
  "CHR '','' \<notin> set b \<Longrightarrow> b \<noteq> [] \<Longrightarrow> commaTokens b = [b]"
proof -
  assume a: "CHR '','' \<notin> set b" "b \<noteq> []"
  have tw: "takeWhile (\<lambda>c. c \<noteq> CHR '','') b = b"
    using a(1) by (auto simp: takeWhile_eq_all_conv)
  show ?thesis
    by (subst commaTokens_step [OF a(2)]) (simp add: tw)
qed

lemma Parse_token_too_long:
  assumes tp: "lookupType pre 0 hintTypes \<noteq> 0" and post: "CHR '')'' \<notin> set post"
    and body: "CHR '','' \<notin> set body" and long: "maxScanTokenSize \<le> length body"
  shows "Parse (pre @ ''('' @ body @ '')'' @ post) = Inl (Wrapf ErrTooLong body)"
proof -
  have "body \<noteq> []"
    using long by (auto simp: maxScanTokenSize_def)
  then have "commaTokens body = [body]"
    using body by (intro commaTokens_single)
  then have "tokenTooLong body"
    using long by (simp add: tokenTooLong_def)
  then show ?thesis
    using Parse_parens [OF tp post] by (simp add: collectInputs_eq)
qed

section \<open>Evaluating the functions on a given input\<close>

lemma trimLeft_step:
  "leadingSpace s \<noteq> 0 \<Longrightarrow> trimLeft s = trimLeft (drop (leadingSpace s) s)"
  by (subst trimLeft.simps) simp

lemma trimRight_step:
  "trailingSpace s \<noteq> 0 \<Longrightarrow> trimRight s = trimRight (take (length s - trailingSpace s) s)"
  by (subst trimRight.simps) simp

lemma tokenInput_eq:
  "tokenInput token =
     (if CHR ''='' \<notin> set token then
        (if IsBlank token then [] else [\<lparr>K = [], V = TrimSpace token\<rparr>])
      else if IsBlank (takeWhile (\<lambda>c. c \<noteq> CHR ''='') token)
              \<or> IsBlank (drop 1 (dropWhile (\<lambda>c. c \<noteq> CHR ''='') token)) then []
      else [\<lparr>K = TrimSpace (takeWhile (\<lambda>c. c \<noteq> CHR ''='') token),
             V = TrimSpace (drop 1 (dropWhile (\<lambda>c. c \<noteq> CHR ''='') token))\<rparr>])"
  by (simp add: tokenInput_def Let_def)

lemmas hint_eval =
  collectInputs_eq tokenTooLong_def commaTokens_step tokenInput_eq TrimSpace_def
  trimLeft_id trimLeft_step trimRight_id trimRight_step IsBlank_trimLeft
  leadingSpace_def trailingSpace_def spaceRunes_def suffix_to_prefix maxScanTokenSize_def

lemmas parse_eval =
  Parse_cases typeToken_def argumentText_def hintTypes_def asciiFoldEq_def hint_eval

lemma lookupType_canonical:
  "lookupType ''MASTER'' 0 hintTypes = TypeMaster"
  "lookupType ''SLAVE'' 0 hintTypes = TypeSlave"
  "lookupType ''ROUTE'' 0 hintTypes = TypeRoute"
  "lookupType ''FULLSCAN'' 0 hintTypes = TypeFullScan"
  "lookupType ''DIRECT'' 0 hintTypes = TypeDirect"
  "lookupType ''TRACE'' 0 hintTypes = TypeTrace"
  by (simp_all add: hintTypes_def asciiFoldEq_def TypeMaster_def TypeSlave_def TypeRoute_def
        TypeFullScan_def TypeDirect_def TypeTrace_def)

lemma Type_nonzero:
  "TypeMaster \<noteq> 0" "TypeSlave \<noteq> 0" "TypeRoute \<noteq> 0"
  "TypeFullScan \<noteq> 0" "TypeDirect \<noteq> 0" "TypeTrace \<noteq> 0"
  by (simp_all add: TypeMaster_def TypeSlave_def TypeRoute_def
        TypeFullScan_def TypeDirect_def TypeTrace_def)

lemma argumentText_bare: "CHR ''('' \<notin> set s \<Longrightarrow> argumentText s = []"
proof -
  assume "CHR ''('' \<notin> set s"
  then have d: "dropWhile (\<lambda>c. c \<noteq> CHR ''('') s = []"
    by (auto simp: dropWhile_eq_Nil_conv)
  show ?thesis
    unfolding argumentText_def d by simp
qed

lemma tokenInput_parsed: "p \<in> set (tokenInput t) \<Longrightarrow> parsedInput p"
  by (auto simp: tokenInput_eq parsedInput_def TrimSpace_idem split: if_splits)

section \<open>Spellings of a canonical name\<close>

lemma asciiUpper_fold:
  "65 \<le> (of_char (asciiUpper c) :: nat) \<Longrightarrow> (of_char (asciiUpper c) :: nat) \<le> 90 \<Longrightarrow>
   (of_char c :: nat) < 128 \<and> asciiFoldEq c (asciiUpper c)"
  by (auto simp: asciiUpper_def asciiFoldEq_def Let_def min_def max_def split: if_splits)

lemma asciiFoldEq_upper:
  "asciiFoldEq c d \<Longrightarrow> asciiUpper c = asciiUpper d"
proof -
  assume a: "asciiFoldEq c d"
  show ?thesis
  proof (cases "c = d")
    case True
    then show ?thesis by simp
  next
    case False
    then have "((of_char c :: nat) \<le> 90 \<and> 65 \<le> (of_char c :: nat) \<and> (of_char d :: nat) = of_char c + 32)
        \<or> ((of_char d :: nat) \<le> 90 \<and> 65 \<le> (of_char d :: nat) \<and> (of_char c :: nat) = of_char d + 32)"
      using a by (auto simp: asciiFoldEq_def Let_def min_def max_def split: if_splits)
    then show ?thesis
    proof
      assume h: "(of_char c :: nat) \<le> 90 \<and> 65 \<le> (of_char c :: nat) \<and> (of_char d :: nat) = of_char c + 32"
      then have "char_of (of_char d - (32::nat)) = char_of (of_char c :: nat)"
        by simp
      then show ?thesis
        using h by (simp add: asciiUpper_def)
    next
      assume h: "(of_char d :: nat) \<le> 90 \<and> 65 \<le> (of_char d :: nat) \<and> (of_char c :: nat) = of_char d + 32"
      then have "char_of (of_char c - (32::nat)) = char_of (of_char d :: nat)"
        by simp
      then show ?thesis
        using h by (simp add: asciiUpper_def)
    qed
  qed
qed

lemma equalFold_spelling:
  "upperLetters (map asciiUpper n) \<Longrightarrow> equalFold n (map asciiUpper n)"
proof (induction n)
  case Nil
  then show ?case by simp
next
  case (Cons c n)
  then have "65 \<le> (of_char (asciiUpper c) :: nat)" "(of_char (asciiUpper c) :: nat) \<le> 90"
    and "upperLetters (map asciiUpper n)"
    by (simp_all add: upperLetters_def)
  then show ?case
    using Cons.IH asciiUpper_fold [of c] by simp
qed

lemma equalFold_ascii_upper:
  "equalFold s t \<Longrightarrow> \<forall>c\<in>set s. (of_char c :: nat) < 128 \<Longrightarrow> map asciiUpper s = map asciiUpper t"
proof (induction s t rule: equalFold.induct)
  case (1 t)
  then show ?case by simp
next
  case (2 c s)
  then show ?case by simp
next
  case (3 c s d t)
  have c: "(of_char c :: nat) < 128" and s: "\<forall>c\<in>set s. (of_char c :: nat) < 128"
    using "3.prems"(2) by simp_all
  have "asciiFoldEq c d" and "equalFold s t"
    using "3.prems"(1) c by simp_all
  then show ?case
    using "3.IH"(1) [OF c] s asciiFoldEq_upper by simp
qed

lemma upperLetters_fixed: "upperLetters v \<Longrightarrow> map asciiUpper v = v"
  by (induction v) (auto simp: upperLetters_def asciiUpper_def)

lemma upperLetters_canonical: "v \<in> set canonicalNames \<Longrightarrow> upperLetters v"
  by (auto simp: canonicalNames_def upperLetters_def)

lemma spelling_matches:
  assumes N: "N \<in> set canonicalNames" and n: "map asciiUpper n = N"
    and v: "v \<in> set hintTypes"
  shows "equalFold n v \<longleftrightarrow> v = N"
proof
  assume "v = N"
  then show "equalFold n v"
    using equalFold_spelling [of n] upperLetters_canonical [OF N] n by simp
next
  assume e: "equalFold n v"
  have up: "upperLetters (map asciiUpper n)"
    using upperLetters_canonical [OF N] n by simp
  have ascii: "\<forall>c\<in>set n. (of_char c :: nat) < 128"
  proof
    fix c assume "c \<in> set n"
    then have "65 \<le> (of_char (asciiUpper c) :: nat)" "(of_char (asciiUpper c) :: nat) \<le> 90"
      using up by (auto simp: upperLetters_def)
    then show "(of_char c :: nat) < 128"
      using asciiUpper_fold by blast
  qed
  have "N \<noteq> []"
    using N by (auto simp: canonicalNames_def)
  then have "n \<noteq> []"
    using n by auto
  then have "v \<noteq> []"
    using e by (cases n) auto
  then have "v \<in> set canonicalNames"
    using v by (auto simp: hintTypes_def canonicalNames_def)
  then have "map asciiUpper v = v"
    using upperLetters_canonical upperLetters_fixed by blast
  then show "v = N"
    using equalFold_ascii_upper [OF e ascii] n by simp
qed

lemma spelling_lookup:
  assumes N: "N \<in> set canonicalNames" and n: "map asciiUpper n = N"
  shows "lookupType n 0 hintTypes \<noteq> 0 \<and> Type_String (lookupType n 0 hintTypes) = Inr N"
proof -
  have e: "equalFold n [] = ([] = N)" "equalFold n ''MASTER'' = (''MASTER'' = N)"
    "equalFold n ''SLAVE'' = (''SLAVE'' = N)" "equalFold n ''ROUTE'' = (''ROUTE'' = N)"
    "equalFold n ''FULLSCAN'' = (''FULLSCAN'' = N)" "equalFold n ''DIRECT'' = (''DIRECT'' = N)"
    "equalFold n ''TRACE'' = (''TRACE'' = N)"
    by (rule spelling_matches [OF N n], simp add: hintTypes_def)+
  have "N = ''MASTER'' \<or> N = ''SLAVE'' \<or> N = ''ROUTE'' \<or> N = ''FULLSCAN''
      \<or> N = ''DIRECT'' \<or> N = ''TRACE''"
    using N by (simp add: canonicalNames_def)
  then show ?thesis
  proof (elim disjE)
    assume c: "N = ''MASTER''"
    show ?thesis
      unfolding hintTypes_def lookupType.simps e c by (simp add: Type_String_def hintTypes_def)
  next
    assume c: "N = ''SLAVE''"
    show ?thesis
      unfolding hintTypes_def lookupType.simps e c by (simp add: Type_String_def hintTypes_def)
  next
    assume c: "N = ''ROUTE''"
    show ?thesis
      unfolding hintTypes_def lookupType.simps e c by (simp add: Type_String_def hintTypes_def)
  next
    assume c: "N = ''FULLSCAN''"
    show ?thesis
      unfolding hintTypes_def lookupType.simps e c by (simp add: Type_String_def hintTypes_def)
  next
    assume c: "N = ''DIRECT''"
    show ?thesis
      unfolding hintTypes_def lookupType.simps e c by (simp add: Type_String_def hintTypes_def)
  next
    assume c: "N = ''TRACE''"
    show ?thesis
      unfolding hintTypes_def lookupType.simps e c by (simp add: Type_String_def hintTypes_def)
  qed
qed

section \<open>Rendering\<close>

lemma writeKv_append: "writeKv sb p = sb @ writeKv [] p"
  by (simp add: writeKv_def)

lemma foldl_writeKv:
  "foldl (\<lambda>sb q. writeKv (sb @ '','') q) acc ps
     = acc @ concat (map (\<lambda>q. CHR '','' # writeKv [] q) ps)"
proof (induction ps arbitrary: acc)
  case Nil
  then show ?case by simp
next
  case (Cons q ps)
  have "writeKv (acc @ '','') q = acc @ CHR '','' # writeKv [] q"
    by (subst writeKv_append) simp
  then show ?case
    by (simp add: Cons.IH)
qed

lemma Hint_String_inputs:
  assumes "unat (Type h) < 7" and "Inputs h = p # ps"
  shows "Hint_String h =
     Inr (hintTypes ! unat (Type h) @ ''(''
          @ (writeKv [] p @ concat (map (\<lambda>q. CHR '','' # writeKv [] q) ps)) @ '')'')"
proof -
  have len: "length hintTypes = 7"
    by (simp add: hintTypes_def)
  have w: "writeKv (hintTypes ! unat (Type h) @ ''('') p
      = hintTypes ! unat (Type h) @ ''('' @ writeKv [] p"
    by (subst writeKv_append) simp
  show ?thesis
    unfolding Hint_String_def Type_String_def len using assms
    by (simp add: foldl_writeKv w)
qed

lemma commaTokens_joined:
  "\<forall>t\<in>set (t0 # ts). CHR '','' \<notin> set t \<and> t \<noteq> [] \<Longrightarrow>
   commaTokens (t0 @ concat (map (\<lambda>q. CHR '','' # q) ts)) = t0 # ts"
proof (induction ts arbitrary: t0)
  case Nil
  then show ?case by (simp add: commaTokens_single)
next
  case (Cons t1 ts)
  let ?rest = "t1 @ concat (map (\<lambda>q. CHR '','' # q) ts)"
  have t0: "CHR '','' \<notin> set t0" "t0 \<noteq> []"
    using Cons.prems by simp_all
  have tw: "takeWhile (\<lambda>c. c \<noteq> CHR '','') (t0 @ CHR '','' # ?rest) = t0"
    using t0(1) by (simp add: takeWhile_append)
  have ne: "t0 @ CHR '','' # ?rest \<noteq> []"
    by simp
  have "commaTokens (t0 @ CHR '','' # ?rest) = t0 # commaTokens ?rest"
    by (subst commaTokens_step [OF ne]) (simp add: tw)
  moreover have "commaTokens ?rest = t1 # ts"
    using Cons.prems by (intro Cons.IH) simp
  ultimately show ?case by simp
qed

lemma stable_token:
  assumes "stableInput p"
  shows "CHR '','' \<notin> set (writeKv [] p)" and "writeKv [] p \<noteq> []"
    and "length (writeKv [] p) < maxScanTokenSize"
  using assms by (auto simp: stableInput_def writeKv_def split: if_splits)

lemma TrimSpace_fixed_blank: "TrimSpace s = s \<Longrightarrow> IsBlank s \<longleftrightarrow> s = []"
  by (simp add: IsBlank_TrimSpace_Nil)

lemma tokenInput_stable:
  assumes st: "stableInput p"
  shows "tokenInput (writeKv [] p) = [p]"
proof (cases "K p = []")
  case True
  have v: "TrimSpace (V p) = V p" "V p \<noteq> []" "CHR ''='' \<notin> set (V p)"
    using st True by (simp_all add: stableInput_def)
  have "\<not> IsBlank (V p)"
    using v by (simp add: TrimSpace_fixed_blank)
  then have "tokenInput (V p) = [\<lparr>K = [], V = V p\<rparr>]"
    using v by (simp add: tokenInput_eq)
  then show ?thesis
    using True by (simp add: writeKv_def)
next
  case False
  have v: "TrimSpace (V p) = V p" "V p \<noteq> []"
    and k: "TrimSpace (K p) = K p" "CHR ''='' \<notin> set (K p)"
    using st False by (simp_all add: stableInput_def)
  have nb: "\<not> IsBlank (V p)" "\<not> IsBlank (K p)"
    using v k False by (simp_all add: TrimSpace_fixed_blank)
  have tw: "takeWhile (\<lambda>c. c \<noteq> CHR ''='') (K p @ CHR ''='' # V p) = K p"
    using k(2) by (simp add: takeWhile_append)
  have dw: "dropWhile (\<lambda>c. c \<noteq> CHR ''='') (K p @ CHR ''='' # V p) = CHR ''='' # V p"
    using k(2) by (simp add: dropWhile_append)
  have "tokenInput (K p @ CHR ''='' # V p) = [\<lparr>K = K p, V = V p\<rparr>]"
    unfolding tokenInput_eq tw dw using nb v k by simp
  then show ?thesis
    using False by (simp add: writeKv_def)
qed

lemma lookupType_name:
  assumes nz: "tp \<noteq> 0" and lt: "unat tp < 7"
  shows "lookupType (hintTypes ! unat tp) 0 hintTypes = tp"
proof -
  have tp: "tp = of_nat (unat tp)"
    by simp
  have "unat tp \<noteq> 0"
    using nz by (simp add: unat_eq_0)
  then have "unat tp = 1 \<or> unat tp = 2 \<or> unat tp = 3 \<or> unat tp = 4 \<or> unat tp = 5 \<or> unat tp = 6"
    using lt by arith
  then show ?thesis
  proof (elim disjE)
    assume u: "unat tp = 1"
    have t: "tp = TypeMaster" by (subst tp) (simp add: u TypeMaster_def)
    have nm: "hintTypes ! unat tp = ''MASTER''" by (simp add: u hintTypes_def)
    show ?thesis unfolding nm by (simp add: lookupType_canonical t)
  next
    assume u: "unat tp = 2"
    have t: "tp = TypeSlave" by (subst tp) (simp add: u TypeSlave_def)
    have nm: "hintTypes ! unat tp = ''SLAVE''" by (simp add: u hintTypes_def)
    show ?thesis unfolding nm by (simp add: lookupType_canonical t)
  next
    assume u: "unat tp = 3"
    have t: "tp = TypeRoute" by (subst tp) (simp add: u TypeRoute_def)
    have nm: "hintTypes ! unat tp = ''ROUTE''" by (simp add: u hintTypes_def)
    show ?thesis unfolding nm by (simp add: lookupType_canonical t)
  next
    assume u: "unat tp = 4"
    have t: "tp = TypeFullScan" by (subst tp) (simp add: u TypeFullScan_def)
    have nm: "hintTypes ! unat tp = ''FULLSCAN''" by (simp add: u hintTypes_def)
    show ?thesis unfolding nm by (simp add: lookupType_canonical t)
  next
    assume u: "unat tp = 5"
    have t: "tp = TypeDirect" by (subst tp) (simp add: u TypeDirect_def)
    have nm: "hintTypes ! unat tp = ''DIRECT''" by (simp add: u hintTypes_def)
    show ?thesis unfolding nm by (simp add: lookupType_canonical t)
  next
    assume u: "unat tp = 6"
    have t: "tp = TypeTrace" by (subst tp) (simp add: u TypeTrace_def)
    have nm: "hintTypes ! unat tp = ''TRACE''" by (simp add: u hintTypes_def)
    show ?thesis unfolding nm by (simp add: lookupType_canonical t)
  qed
qed

section \<open>The claims of the specification\<close>



text \<open>
  C3, as the specification states it: \<open>Render\<close> never fails, whatever the \<open>Type\<close> value. It
  fails on the value 7, which the table \<open>_hintTypes\<close> has no slot for.
\<close>

theorem Hint_String_counterexample:
  "Hint_String \<lparr>Type = 7, Inputs = []\<rparr> = Inl IndexOutOfRange"
  by (simp add: Hint_String_def Type_String_def hintTypes_def)

text \<open>
  C3, amended. For every hint whose \<open>Type\<close> value is at most 6 (zero or one of the six declared
  kinds) and for any inputs, \<open>Render\<close> produces a string; for a \<open>Type\<close> value of 7 or more the
  lookup of the name panics with an index out of range.
\<close>

theorem Hint_String_total:
  "(unat (Type h) < 7 \<longrightarrow> (\<exists>s. Hint_String h = Inr s)) \<and>
   (\<not> unat (Type h) < 7 \<longrightarrow> Hint_String h = Inl IndexOutOfRange)"
  by (simp add: Hint_String_def Type_String_def hintTypes_def split: list.splits)

theorem Hint_String_total_witness:
  "unat (Type \<lparr>Type = TypeTrace, Inputs = []\<rparr>) < 7 \<and>
   Hint_String \<lparr>Type = TypeTrace, Inputs = []\<rparr> = Inr ''TRACE()''"
  using Hint_String_total [of "\<lparr>Type = TypeTrace, Inputs = []\<rparr>"]
  by (simp add: TypeTrace_def Hint_String_def Type_String_def hintTypes_def)

text \<open>
  C8. Every error returned by \<open>Parse\<close> should carry the string passed to \<open>Parse\<close>. The two
  \<open>Errorf\<close> branches do. The branch for a scanner error formats \<open>s\<close> after \<open>s\<close> has been
  overwritten with the argument-list text: for the input \<open>TRACE(\<close>, 65536 times \<open>x\<close>, \<open>)\<close>,
  the error carries only the 65536 bytes between the parentheses.
\<close>

theorem Parse_scan_error_text:
  "Parse (''TRACE('' @ replicate 65536 (CHR ''x'') @ '')'')
     = Inl (Wrapf ErrTooLong (replicate 65536 (CHR ''x''))) \<and>
   errorText (Wrapf ErrTooLong (replicate 65536 (CHR ''x'')))
     = Some (''hint: invalid input '' @ [CHR 0x27] @ replicate 65536 (CHR ''x'') @ [CHR 0x27]
             @ '': bufio.Scanner: token too long'')"
proof -
  have "Parse (''TRACE'' @ ''('' @ replicate 65536 (CHR ''x'') @ '')'' @ [])
      = Inl (Wrapf ErrTooLong (replicate 65536 (CHR ''x'')))"
    by (rule Parse_token_too_long)
      (simp_all add: lookupType_canonical Type_nonzero maxScanTokenSize_def)
  then show ?thesis by simp
qed

text \<open>
  C7. When an opening parenthesis is present and no closing parenthesis exists anywhere in
  the input, \<open>Parse\<close> fails with the invalid-input error. When the input is a resolvable type
  name (which never holds a parenthesis), \<open>(\<close>, any text \<open>body\<close>, \<open>)\<close> and a rest without
  \<open>)\<close>, so that \<open>body\<close> is what stands between the first \<open>(\<close> and the last \<open>)\<close>, the
  argument-list text that \<open>Parse\<close> scans is \<open>body\<close>, parentheses in it included.
\<close>

theorem Parse_argument_text:
  "(CHR ''('' \<in> set s \<and> CHR '')'' \<notin> set s \<longrightarrow> Parse s = Inl (Errorf s)) \<and>
   (lookupType pre 0 hintTypes \<noteq> 0 \<and> CHR '')'' \<notin> set post \<longrightarrow>
      CHR ''('' \<notin> set pre \<and>
      Parse (pre @ ''('' @ body @ '')'' @ post) = collectInputs (lookupType pre 0 hintTypes) body)"
proof (intro conjI impI)
  assume "CHR ''('' \<in> set s \<and> CHR '')'' \<notin> set s"
  then show "Parse s = Inl (Errorf s)" by (simp add: Parse_unclosed)
next
  assume "lookupType pre 0 hintTypes \<noteq> 0 \<and> CHR '')'' \<notin> set post"
  then show "CHR ''('' \<notin> set pre" by (simp add: lookupType_no_paren)
next
  assume "lookupType pre 0 hintTypes \<noteq> 0 \<and> CHR '')'' \<notin> set post"
  then show "Parse (pre @ ''('' @ body @ '')'' @ post)
      = collectInputs (lookupType pre 0 hintTypes) body"
    using Parse_parens [of pre post body] by blast
qed

theorem Parse_argument_text_witness:
  "CHR ''('' \<in> set ''ROUTE(a'' \<and> CHR '')'' \<notin> set ''ROUTE(a'' \<and>
   Parse ''ROUTE(a'' = Inl (Errorf ''ROUTE(a'') \<and>
   lookupType ''ROUTE'' 0 hintTypes \<noteq> 0 \<and> CHR '')'' \<notin> set '' tail'' \<and>
   Parse ''ROUTE(f(x),g(y)) tail'' = collectInputs TypeRoute ''f(x),g(y)'' \<and>
   collectInputs TypeRoute ''f(x),g(y)''
     = Inr \<lparr>Type = TypeRoute, Inputs = [\<lparr>K = [], V = ''f(x)''\<rparr>, \<lparr>K = [], V = ''g(y)''\<rparr>]\<rparr>"
proof -
  have a: "Parse ''ROUTE(a'' = Inl (Errorf ''ROUTE(a'')"
    using Parse_argument_text [of "''ROUTE(a''" "[]" "[]" "[]"] by simp
  have "Parse (''ROUTE'' @ ''('' @ ''f(x),g(y)'' @ '')'' @ '' tail'')
      = collectInputs (lookupType ''ROUTE'' 0 hintTypes) ''f(x),g(y)''"
    using Parse_argument_text [of "[]" "''ROUTE''" "'' tail''" "''f(x),g(y)''"]
    by (simp add: lookupType_canonical Type_nonzero)
  then have b: "Parse ''ROUTE(f(x),g(y)) tail'' = collectInputs TypeRoute ''f(x),g(y)''"
    by (simp add: lookupType_canonical)
  have c: "collectInputs TypeRoute ''f(x),g(y)''
     = Inr \<lparr>Type = TypeRoute, Inputs = [\<lparr>K = [], V = ''f(x)''\<rparr>, \<lparr>K = [], V = ''g(y)''\<rparr>]\<rparr>"
    by (simp add: hint_eval)
  show ?thesis using a b c by (simp add: lookupType_canonical Type_nonzero)
qed

text \<open>
  C4. The loop body appends to the inputs what the specification prescribes for the token,
  and the inputs of every hint that \<open>Parse\<close> returns are these contributions of the
  comma-delimited tokens of the argument-list text, in order: a token without \<open>=\<close> gives its
  trimmed text with an empty key, or nothing when it is blank; a token with \<open>=\<close> is split at
  the first \<open>=\<close> and gives the trimmed sides, or nothing when one of them is blank.
\<close>

theorem Parse_inputs_per_token:
  "appendInput token kvs = kvs @ tokenInput token \<and>
   (Parse s = Inr h \<longrightarrow> Inputs h = concat (map tokenInput (commaTokens (argumentText s))))"
proof (intro conjI impI)
  show "appendInput token kvs = kvs @ tokenInput token" by (rule appendInput_eq)
next
  assume a: "Parse s = Inr h"
  show "Inputs h = concat (map tokenInput (commaTokens (argumentText s)))"
  proof (cases "CHR ''('' \<in> set s")
    case False
    then show ?thesis
      using a by (auto simp: Parse_cases argumentText_bare split: if_splits)
  next
    case True
    then show ?thesis
      using a by (auto simp: Parse_cases collectInputs_eq split: if_splits)
  qed
qed

theorem Parse_inputs_per_token_witness:
  "Parse ''ROUTE( x = 1 , , y=2 )''
     = Inr \<lparr>Type = TypeRoute, Inputs = [\<lparr>K = ''x'', V = ''1''\<rparr>, \<lparr>K = ''y'', V = ''2''\<rparr>]\<rparr> \<and>
   commaTokens (argumentText ''ROUTE( x = 1 , , y=2 )'') = ['' x = 1 '', '' '', '' y=2 ''] \<and>
   concat (map tokenInput (commaTokens (argumentText ''ROUTE( x = 1 , , y=2 )'')))
     = [\<lparr>K = ''x'', V = ''1''\<rparr>, \<lparr>K = ''y'', V = ''2''\<rparr>]"
proof -
  have p: "Parse ''ROUTE( x = 1 , , y=2 )''
     = Inr \<lparr>Type = TypeRoute, Inputs = [\<lparr>K = ''x'', V = ''1''\<rparr>, \<lparr>K = ''y'', V = ''2''\<rparr>]\<rparr>"
    by (simp add: parse_eval TypeRoute_def)
  have t: "commaTokens (argumentText ''ROUTE( x = 1 , , y=2 )'') = ['' x = 1 '', '' '', '' y=2 '']"
    by (simp add: argumentText_def commaTokens_step)
  show ?thesis
    using Parse_inputs_per_token [of "[]" "[]" "''ROUTE( x = 1 , , y=2 )''"
      "\<lparr>Type = TypeRoute, Inputs = [\<lparr>K = ''x'', V = ''1''\<rparr>, \<lparr>K = ''y'', V = ''2''\<rparr>]\<rparr>"] p t
    by simp
qed

text \<open>
  C5. Every hint returned by a successful \<open>Parse\<close> has a type other than the zero variant;
  every input of it has a value that is not blank and is trimmed; and a key that is present
  is not blank and is trimmed.
\<close>

theorem Parse_invariant:
  "Parse s = Inr h \<Longrightarrow>
   Type h \<noteq> 0 \<and>
   (\<forall>p\<in>set (Inputs h).
      \<not> IsBlank (V p) \<and> TrimSpace (V p) = V p \<and>
      (K p \<noteq> [] \<longrightarrow> \<not> IsBlank (K p) \<and> TrimSpace (K p) = K p))"
proof -
  assume a: "Parse s = Inr h"
  have tp: "Type h \<noteq> 0"
    using a by (auto simp: Parse_cases collectInputs_eq split: if_splits)
  have "Inputs h = [] \<or> Inputs h = concat (map tokenInput (commaTokens (argumentText s)))"
    using a by (auto simp: Parse_cases collectInputs_eq split: if_splits)
  then have "\<forall>p\<in>set (Inputs h). parsedInput p"
    by (auto dest: tokenInput_parsed)
  then show ?thesis
    using tp by (simp add: parsedInput_def)
qed

theorem Parse_invariant_witness:
  "Parse ''ROUTE( x = 1 , , y=2 )''
     = Inr \<lparr>Type = TypeRoute, Inputs = [\<lparr>K = ''x'', V = ''1''\<rparr>, \<lparr>K = ''y'', V = ''2''\<rparr>]\<rparr> \<and>
   TypeRoute \<noteq> 0 \<and>
   \<not> IsBlank ''1'' \<and> TrimSpace ''1'' = ''1'' \<and> \<not> IsBlank ''x'' \<and> TrimSpace ''x'' = ''x''"
proof -
  have p: "Parse ''ROUTE( x = 1 , , y=2 )''
     = Inr \<lparr>Type = TypeRoute, Inputs = [\<lparr>K = ''x'', V = ''1''\<rparr>, \<lparr>K = ''y'', V = ''2''\<rparr>]\<rparr>"
    by (simp add: parse_eval TypeRoute_def)
  show ?thesis
    using Parse_invariant [OF p] p by simp
qed

text \<open>
  C10, as the specification states it: for every name, body and rest without \<open>)\<close>, parsing
  name \<open>(\<close> body \<open>)\<close> rest succeeds. It fails for a body of 65536 bytes without a comma,
  which the scanner refuses as a token too long.
\<close>

theorem Parse_trailing_counterexample:
  "Parse (''SLAVE('' @ replicate 65536 (CHR ''b'') @ '')'' @ '' tail'')
     = Inl (Wrapf ErrTooLong (replicate 65536 (CHR ''b'')))"
proof -
  have "Parse (''SLAVE'' @ ''('' @ replicate 65536 (CHR ''b'') @ '')'' @ '' tail'')
      = Inl (Wrapf ErrTooLong (replicate 65536 (CHR ''b'')))"
    by (rule Parse_token_too_long)
      (simp_all add: lookupType_canonical Type_nonzero maxScanTokenSize_def)
  then show ?thesis by simp
qed

text \<open>
  C10, amended. What follows the last \<open>)\<close> is ignored: for every name that resolves to a
  type, every body none of whose comma-delimited tokens has 65536 bytes or more, and every
  rest without \<open>)\<close>, parsing name \<open>(\<close> body \<open>)\<close> rest succeeds and returns the type and
  the inputs that parsing name \<open>(\<close> body \<open>)\<close> returns.
\<close>

theorem Parse_trailing_ignored:
  "lookupType n 0 hintTypes \<noteq> 0 \<Longrightarrow> CHR '')'' \<notin> set t \<Longrightarrow> \<not> tokenTooLong b \<Longrightarrow>
   Parse (n @ ''('' @ b @ '')'' @ t)
     = Inr \<lparr>Type = lookupType n 0 hintTypes,
            Inputs = concat (map tokenInput (commaTokens b))\<rparr> \<and>
   Parse (n @ ''('' @ b @ '')'')
     = Inr \<lparr>Type = lookupType n 0 hintTypes,
            Inputs = concat (map tokenInput (commaTokens b))\<rparr>"
proof -
  assume tp: "lookupType n 0 hintTypes \<noteq> 0" and t: "CHR '')'' \<notin> set t"
    and short: "\<not> tokenTooLong b"
  have a: "Parse (n @ ''('' @ b @ '')'' @ t) = collectInputs (lookupType n 0 hintTypes) b"
    using tp t by (rule Parse_parens)
  have "Parse (n @ ''('' @ b @ '')'' @ []) = collectInputs (lookupType n 0 hintTypes) b"
    using tp by (rule Parse_parens) simp
  then have b: "Parse (n @ ''('' @ b @ '')'') = collectInputs (lookupType n 0 hintTypes) b"
    by simp
  show ?thesis
    unfolding a b using short by (simp add: collectInputs_eq)
qed

theorem Parse_trailing_ignored_witness:
  "lookupType ''MASTER'' 0 hintTypes \<noteq> 0 \<and> CHR '')'' \<notin> set '' -- note'' \<and>
   \<not> tokenTooLong ''a=(1),b'' \<and>
   Parse ''MASTER(a=(1),b) -- note''
     = Inr \<lparr>Type = TypeMaster, Inputs = [\<lparr>K = ''a'', V = ''(1)''\<rparr>, \<lparr>K = [], V = ''b''\<rparr>]\<rparr> \<and>
   Parse ''MASTER(a=(1),b)''
     = Inr \<lparr>Type = TypeMaster, Inputs = [\<lparr>K = ''a'', V = ''(1)''\<rparr>, \<lparr>K = [], V = ''b''\<rparr>]\<rparr>"
proof -
  have tp: "lookupType ''MASTER'' 0 hintTypes \<noteq> 0"
    by (simp add: lookupType_canonical Type_nonzero)
  have t: "CHR '')'' \<notin> set '' -- note''" by simp
  have s: "\<not> tokenTooLong ''a=(1),b''"
    by (simp add: hint_eval)
  have i: "concat (map tokenInput (commaTokens ''a=(1),b''))
      = [\<lparr>K = ''a'', V = ''(1)''\<rparr>, \<lparr>K = [], V = ''b''\<rparr>]"
    by (simp add: hint_eval)
  show ?thesis
    using Parse_trailing_ignored [OF tp t s] tp s i
    by (simp add: lookupType_canonical)
qed

text \<open>
  C2, as the specification states it: \<open>Parse\<close> fails only when the type name matches no
  canonical name, or resolves to the zero variant, or a closing parenthesis is missing, and
  never because of the length of the argument list. The input \<open>MASTER(\<close>, 65536 times
  \<open>a\<close>, \<open>)\<close> meets none of the three conditions and fails.
\<close>

theorem Parse_fails_counterexample:
  "isl (Parse (''MASTER('' @ replicate 65536 (CHR ''a'') @ '')'')) \<and>
   \<not> matchesNoName (''MASTER('' @ replicate 65536 (CHR ''a'') @ '')'') \<and>
   \<not> resolvesToZero (''MASTER('' @ replicate 65536 (CHR ''a'') @ '')'') \<and>
   \<not> missingClose (''MASTER('' @ replicate 65536 (CHR ''a'') @ '')'')"
proof -
  have "Parse (''MASTER'' @ ''('' @ replicate 65536 (CHR ''a'') @ '')'' @ [])
      = Inl (Wrapf ErrTooLong (replicate 65536 (CHR ''a'')))"
    by (rule Parse_token_too_long)
      (simp_all add: lookupType_canonical Type_nonzero maxScanTokenSize_def)
  then have a: "isl (Parse (''MASTER('' @ replicate 65536 (CHR ''a'') @ '')''))"
    by simp
  have tok: "typeToken (''MASTER('' @ replicate 65536 (CHR ''a'') @ '')'') = ''MASTER''"
    by (simp add: typeToken_def)
  have b: "\<not> matchesNoName (''MASTER('' @ replicate 65536 (CHR ''a'') @ '')'')"
    unfolding matchesNoName_def tok by (simp add: canonicalNames_def asciiFoldEq_def)
  have c: "\<not> resolvesToZero (''MASTER('' @ replicate 65536 (CHR ''a'') @ '')'')"
    unfolding resolvesToZero_def tok by (simp add: hintTypes_def)
  have d: "\<not> missingClose (''MASTER('' @ replicate 65536 (CHR ''a'') @ '')'')"
    by (simp add: missingClose_def)
  show ?thesis using a b c d by blast
qed

text \<open>
  C2, amended. \<open>Parse\<close> returns an error exactly when the type-name token matches no
  canonical name, or resolves to the zero variant, or an opening parenthesis is present and
  no closing parenthesis follows it, or some comma-delimited token of the text between the
  first \<open>(\<close> and the last \<open>)\<close> has 65536 bytes or more; the content of the argument list
  never makes it fail, and it never panics.
\<close>

theorem Parse_fails_iff:
  "(isl (Parse s) \<longleftrightarrow>
      matchesNoName s \<or> resolvesToZero s \<or> missingClose s \<or> tokenTooLong (argumentText s)) \<and>
   (\<forall>e. Parse s = Inl e \<longrightarrow> \<not> isPanic e)"
proof -
  let ?tp = "lookupType (typeToken s) 0 hintTypes"
  have z: "?tp = 0 \<longleftrightarrow> matchesNoName s"
    by (simp add: lookupType_zero_iff matchesNoName_def)
  have r: "resolvesToZero s \<Longrightarrow> matchesNoName s"
    by (simp add: resolvesToZero_def matchesNoName_def hintTypes_def canonicalNames_def)
  have np: "\<forall>e. Parse s = Inl e \<longrightarrow> \<not> isPanic e"
    by (auto simp: Parse_cases collectInputs_eq split: if_splits)
  have "isl (Parse s) \<longleftrightarrow>
      matchesNoName s \<or> resolvesToZero s \<or> missingClose s \<or> tokenTooLong (argumentText s)"
  proof (cases "?tp = 0")
    case True
    then show ?thesis using z by (simp add: Parse_cases)
  next
    case tp: False
    then have nm: "\<not> matchesNoName s" "\<not> resolvesToZero s"
      using z r by auto
    show ?thesis
    proof (cases "CHR ''('' \<in> set s")
      case False
      then show ?thesis
        using tp nm by (simp add: Parse_cases missingClose_def argumentText_bare tokenTooLong_def)
    next
      case op: True
      have "CHR '')'' \<notin> set (typeToken s)"
        using tp by (rule lookupType_no_paren)
      moreover have "set s = set (typeToken s) \<union> set (dropWhile (\<lambda>c. c \<noteq> CHR ''('') s)"
        unfolding typeToken_def by (metis set_append takeWhile_dropWhile_id)
      ultimately have "CHR '')'' \<in> set (dropWhile (\<lambda>c. c \<noteq> CHR ''('') s) \<longleftrightarrow> CHR '')'' \<in> set s"
        by auto
      then have mc: "missingClose s \<longleftrightarrow> CHR '')'' \<notin> set s"
        using op by (simp add: missingClose_def)
      show ?thesis
        using tp nm op mc by (simp add: Parse_cases collectInputs_eq)
    qed
  qed
  then show ?thesis using np by blast
qed

theorem Parse_fails_iff_witness:
  "isl (Parse ''BOGUS'') \<and> matchesNoName ''BOGUS'' \<and>
   Parse ''MASTER(a=1'' = Inl (Errorf ''MASTER(a=1'') \<and> \<not> isPanic (Errorf ''MASTER(a=1'') \<and>
   missingClose ''MASTER(a=1'' \<and>
   \<not> isl (Parse ''MASTER(a=1)'')"
proof -
  have a: "matchesNoName ''BOGUS''"
    by (simp add: matchesNoName_def typeToken_def canonicalNames_def asciiFoldEq_def)
  have b: "missingClose ''MASTER(a=1''"
    by (simp add: missingClose_def)
  have c: "Parse ''MASTER(a=1'' = Inl (Errorf ''MASTER(a=1'')"
    by (simp add: Parse_unclosed)
  have d: "\<not> matchesNoName ''MASTER(a=1)''" "\<not> resolvesToZero ''MASTER(a=1)''"
    "\<not> missingClose ''MASTER(a=1)''" "\<not> tokenTooLong (argumentText ''MASTER(a=1)'')"
    by (simp_all add: matchesNoName_def resolvesToZero_def missingClose_def typeToken_def
          canonicalNames_def hintTypes_def asciiFoldEq_def argumentText_def hint_eval)
  show ?thesis
    using Parse_fails_iff [of "''BOGUS''"] Parse_fails_iff [of "''MASTER(a=1''"]
      Parse_fails_iff [of "''MASTER(a=1)''"] a b c d
    by simp
qed

text \<open>
  C6. For every canonical name \<open>N\<close> and every spelling \<open>n\<close> of it in upper and lower case
  letters, \<open>Parse(n)\<close> succeeds with the variant whose name is \<open>N\<close> and no inputs, and
  \<open>Parse(n + "()")\<close> gives the same type and the same empty inputs.
\<close>

theorem Parse_canonical_name:
  "N \<in> set canonicalNames \<Longrightarrow> map asciiUpper n = N \<Longrightarrow>
   \<exists>tp. tp \<noteq> 0 \<and> Type_String tp = Inr N \<and>
        Parse n = Inr \<lparr>Type = tp, Inputs = []\<rparr> \<and>
        Parse (n @ ''()'') = Inr \<lparr>Type = tp, Inputs = []\<rparr>"
proof -
  assume N: "N \<in> set canonicalNames" and n: "map asciiUpper n = N"
  let ?tp = "lookupType n 0 hintTypes"
  have tp: "?tp \<noteq> 0" and name: "Type_String ?tp = Inr N"
    using spelling_lookup [OF N n] by simp_all
  have "CHR ''('' \<notin> set n"
    using tp by (rule lookupType_no_paren)
  then have bare: "Parse n = Inr \<lparr>Type = ?tp, Inputs = []\<rparr>"
    using tp by (simp add: Parse_bare)
  have "Parse (n @ ''('' @ [] @ '')'' @ []) = collectInputs ?tp []"
    using tp by (rule Parse_parens) simp
  then have "Parse (n @ ''()'') = Inr \<lparr>Type = ?tp, Inputs = []\<rparr>"
    by (simp add: collectInputs_eq tokenTooLong_def)
  then show ?thesis
    using tp name bare by blast
qed

theorem Parse_canonical_name_witness:
  "''FULLSCAN'' \<in> set canonicalNames \<and> map asciiUpper ''FullScan'' = ''FULLSCAN'' \<and>
   Type_String TypeFullScan = Inr ''FULLSCAN'' \<and>
   Parse ''FullScan'' = Inr \<lparr>Type = TypeFullScan, Inputs = []\<rparr> \<and>
   Parse ''FullScan()'' = Inr \<lparr>Type = TypeFullScan, Inputs = []\<rparr>"
proof -
  have N: "''FULLSCAN'' \<in> set canonicalNames"
    by (simp add: canonicalNames_def)
  have n: "map asciiUpper ''FullScan'' = ''FULLSCAN''"
    by code_simp
  obtain tp where tp: "Type_String tp = Inr ''FULLSCAN''"
    "Parse ''FullScan'' = Inr \<lparr>Type = tp, Inputs = []\<rparr>"
    "Parse (''FullScan'' @ ''()'') = Inr \<lparr>Type = tp, Inputs = []\<rparr>"
    using Parse_canonical_name [OF N n] by blast
  have "Parse ''FullScan'' = Inr \<lparr>Type = TypeFullScan, Inputs = []\<rparr>"
    by (simp add: parse_eval TypeFullScan_def)
  then have "tp = TypeFullScan"
    using tp(2) by simp
  then show ?thesis
    using tp N n by simp
qed

text \<open>
  C1, as the specification states it: for every hint with inputs, parsing the rendered form
  gives back the type and the inputs. A value that holds a comma is rendered as it is and
  parsed as two inputs.
\<close>

theorem roundTrip_counterexample:
  "roundTrip \<lparr>Type = TypeMaster, Inputs = [\<lparr>K = [], V = ''a,b''\<rparr>]\<rparr>
     = Inr \<lparr>Type = TypeMaster, Inputs = [\<lparr>K = [], V = ''a''\<rparr>, \<lparr>K = [], V = ''b''\<rparr>]\<rparr> \<and>
   roundTrip \<lparr>Type = TypeMaster, Inputs = [\<lparr>K = [], V = ''a,b''\<rparr>]\<rparr>
     \<noteq> Inr \<lparr>Type = TypeMaster, Inputs = [\<lparr>K = [], V = ''a,b''\<rparr>]\<rparr>"
proof -
  have "Hint_String \<lparr>Type = TypeMaster, Inputs = [\<lparr>K = [], V = ''a,b''\<rparr>]\<rparr> = Inr ''MASTER(a,b)''"
    by (simp add: Hint_String_def Type_String_def hintTypes_def writeKv_def TypeMaster_def)
  moreover have "Parse ''MASTER(a,b)''
      = Inr \<lparr>Type = TypeMaster, Inputs = [\<lparr>K = [], V = ''a''\<rparr>, \<lparr>K = [], V = ''b''\<rparr>]\<rparr>"
    by (simp add: parse_eval TypeMaster_def)
  ultimately show ?thesis
    by (simp add: roundTrip_def)
qed

text \<open>
  C1, amended. For every hint whose type is one of the six declared kinds and whose inputs
  sequence is not empty and holds only inputs of this form: the value is trimmed, not empty
  and free of commas; without a key the value has no \<open>=\<close>; a key is trimmed and free of
  commas and of \<open>=\<close>; and the rendered input is shorter than 65536 bytes; parsing the
  rendered form succeeds and yields a hint of the same type with the same inputs.
\<close>

theorem roundTrip_stable:
  "Type h \<noteq> 0 \<Longrightarrow> unat (Type h) < 7 \<Longrightarrow> Inputs h \<noteq> [] \<Longrightarrow>
   \<forall>p\<in>set (Inputs h). stableInput p \<Longrightarrow>
   roundTrip h = Inr h"
proof -
  assume nz: "Type h \<noteq> 0" and lt: "unat (Type h) < 7" and ne: "Inputs h \<noteq> []"
    and st: "\<forall>p\<in>set (Inputs h). stableInput p"
  obtain p ps where ps: "Inputs h = p # ps"
    using ne by (cases "Inputs h") auto
  let ?name = "hintTypes ! unat (Type h)"
  let ?body = "writeKv [] p @ concat (map (\<lambda>q. CHR '','' # writeKv [] q) ps)"
  have render: "Hint_String h = Inr (?name @ ''('' @ ?body @ '')'')"
    using lt ps by (rule Hint_String_inputs)
  have tp: "lookupType ?name 0 hintTypes = Type h"
    using nz lt by (rule lookupType_name)
  have body: "?body = writeKv [] p @ concat (map (\<lambda>q. CHR '','' # q) (map (writeKv []) ps))"
    by (simp add: comp_def)
  have "\<forall>t\<in>set (writeKv [] p # map (writeKv []) ps). CHR '','' \<notin> set t \<and> t \<noteq> []"
    using st ps stable_token(1,2) by auto
  then have "commaTokens (writeKv [] p @ concat (map (\<lambda>q. CHR '','' # q) (map (writeKv []) ps)))
      = writeKv [] p # map (writeKv []) ps"
    by (rule commaTokens_joined)
  then have toks: "commaTokens ?body = map (writeKv []) (p # ps)"
    unfolding body by simp
  have "\<forall>q\<in>set (p # ps). length (writeKv [] q) < maxScanTokenSize"
    using st ps by (auto intro: stable_token(3))
  then have short: "\<not> tokenTooLong ?body"
    unfolding tokenTooLong_def toks by (simp add: list_ex_iff not_le)
  have "concat (map tokenInput (map (writeKv []) (p # ps))) = concat (map (\<lambda>q. [q]) (p # ps))"
    using st ps by (simp add: tokenInput_stable comp_def cong: map_cong)
  then have inputs: "concat (map tokenInput (commaTokens ?body)) = p # ps"
    unfolding toks by simp
  have "Parse (?name @ ''('' @ ?body @ '')'' @ []) = collectInputs (lookupType ?name 0 hintTypes) ?body"
    using nz tp by (intro Parse_parens) simp_all
  then have "Parse (?name @ ''('' @ ?body @ '')'') = Inr \<lparr>Type = Type h, Inputs = p # ps\<rparr>"
    using short inputs tp by (simp add: collectInputs_eq)
  then show ?thesis
    unfolding roundTrip_def render using ps by simp
qed

theorem roundTrip_stable_witness:
  "TypeRoute \<noteq> 0 \<and> unat TypeRoute < 7 \<and>
   stableInput \<lparr>K = ''db'', V = ''x=(1)''\<rparr> \<and> stableInput \<lparr>K = [], V = ''t 1''\<rparr> \<and>
   Hint_String \<lparr>Type = TypeRoute, Inputs = [\<lparr>K = ''db'', V = ''x=(1)''\<rparr>, \<lparr>K = [], V = ''t 1''\<rparr>]\<rparr>
     = Inr ''ROUTE(db=x=(1),t 1)'' \<and>
   roundTrip \<lparr>Type = TypeRoute, Inputs = [\<lparr>K = ''db'', V = ''x=(1)''\<rparr>, \<lparr>K = [], V = ''t 1''\<rparr>]\<rparr>
     = Inr \<lparr>Type = TypeRoute, Inputs = [\<lparr>K = ''db'', V = ''x=(1)''\<rparr>, \<lparr>K = [], V = ''t 1''\<rparr>]\<rparr>"
proof -
  have a: "stableInput \<lparr>K = ''db'', V = ''x=(1)''\<rparr>"
    by (simp add: stableInput_def writeKv_def hint_eval)
  have b: "stableInput \<lparr>K = [], V = ''t 1''\<rparr>"
    by (simp add: stableInput_def writeKv_def hint_eval)
  have c: "unat TypeRoute < 7"
    by (simp add: TypeRoute_def)
  have d: "Hint_String \<lparr>Type = TypeRoute, Inputs = [\<lparr>K = ''db'', V = ''x=(1)''\<rparr>, \<lparr>K = [], V = ''t 1''\<rparr>]\<rparr>
     = Inr ''ROUTE(db=x=(1),t 1)''"
    by (simp add: Hint_String_def Type_String_def hintTypes_def writeKv_def TypeRoute_def)
  show ?thesis
    using roundTrip_stable
      [of "\<lparr>Type = TypeRoute, Inputs = [\<lparr>K = ''db'', V = ''x=(1)''\<rparr>, \<lparr>K = [], V = ''t 1''\<rparr>]\<rparr>"]
      a b c d Type_nonzero(3)
    by simp
qed

end
